theory Spec2Isabelle
  imports Main "HOL-Library.Word"
begin

section \<open>Data model of \<open>solution.h\<close>\<close>

text \<open>
  Counted objects and handles live in a store. An address is a natural number; a raw
  pointer \<open>T*\<close> is an optional address, \<open>None\<close> being \<open>nullptr\<close>.
  \<open>details::stored_type\<close> is \<open>unsigned int\<close>, taken as 32 bits wide: arithmetic on
  it wraps around.
\<close>

type_synonym addr = nat
type_synonym hid = nat
type_synonym ptr = "addr option"
type_synonym stored_type = "32 word"

text \<open>\<open>struct intrusive_ref_counter\<close>: the one field \<open>counter\<close>.\<close>

record intrusive_ref_counter =
  counter :: stored_type

text \<open>\<open>struct intrusive_ptr\<close>: the one field \<open>obj_pointer\<close>.\<close>

record intrusive_ptr =
  obj_pointer :: ptr

text \<open>
  Every mutation of a counter and every \<open>delete\<close> is recorded, in order of execution:
  \<open>Inc p\<close> for \<open>fetch_add\<close> on the object at \<open>p\<close>, \<open>Dec p v\<close> for \<open>fetch_sub\<close> that
  read the value \<open>v\<close> before subtracting, \<open>Delete p\<close> for the \<open>delete\<close> expression
  (the run of the destructor of \<open>Derived\<close>).
\<close>

datatype event = Inc addr | Dec addr stored_type | Delete addr

text \<open>
  The store: \<open>objs\<close> holds the counter of every live counted object, \<open>ptrs\<close> every
  named \<open>intrusive_ptr\<close> instance, \<open>trace\<close> the events so far. An object that was
  deleted is no longer in \<open>objs\<close>.
\<close>

record state =
  objs :: "addr \<rightharpoonup> intrusive_ref_counter"
  ptrs :: "hid \<rightharpoonup> intrusive_ptr"
  trace :: "event list"

text \<open>
  Behaviour that C++ leaves undefined is an error value: touching the counter of an
  object that is not live, and using an \<open>intrusive_ptr\<close> instance that does not exist
  (or constructing one, or a counted object, where one already is).
\<close>

datatype error = UseAfterFree addr | NoHandle hid | HandleExists hid | ObjectExists addr

definition and_then :: "error + 'a \<Rightarrow> ('a \<Rightarrow> error + 'b) \<Rightarrow> error + 'b" where
  "and_then r f = (case r of Inl e \<Rightarrow> Inl e | Inr x \<Rightarrow> f x)"

section \<open>The counter mixin\<close>

text \<open>
  \<open>intrusive_ref_counter()\<close> is defaulted and the copy constructor has an empty body
  with no initialiser: both leave \<open>counter\<close> to its default member initialiser \<open>0\<close>.
  Copy assignment only returns \<open>*this\<close>.
\<close>

definition intrusive_ref_counter_default :: intrusive_ref_counter where
  "intrusive_ref_counter_default = \<lparr>counter = 0\<rparr>"

definition intrusive_ref_counter_copy :: "intrusive_ref_counter \<Rightarrow> intrusive_ref_counter" where
  "intrusive_ref_counter_copy other = \<lparr>counter = 0\<rparr>"

definition intrusive_ref_counter_assign ::
  "intrusive_ref_counter \<Rightarrow> intrusive_ref_counter \<Rightarrow> intrusive_ref_counter" where
  "intrusive_ref_counter_assign this other = this"

text \<open>The three special members, run on objects in the store.\<close>

definition construct_default :: "addr \<Rightarrow> state \<Rightarrow> error + state" where
  "construct_default a s =
     (if objs s a \<noteq> None then Inl (ObjectExists a)
      else Inr (s\<lparr>objs := (objs s)(a \<mapsto> intrusive_ref_counter_default)\<rparr>))"

definition construct_copy :: "addr \<Rightarrow> addr \<Rightarrow> state \<Rightarrow> error + state" where
  "construct_copy a src s =
     (case objs s src of
        None \<Rightarrow> Inl (UseAfterFree src)
      | Some other \<Rightarrow>
          if objs s a \<noteq> None then Inl (ObjectExists a)
          else Inr (s\<lparr>objs := (objs s)(a \<mapsto> intrusive_ref_counter_copy other)\<rparr>))"

definition assign_copy :: "addr \<Rightarrow> addr \<Rightarrow> state \<Rightarrow> error + state" where
  "assign_copy a src s =
     (case objs s a of
        None \<Rightarrow> Inl (UseAfterFree a)
      | Some this \<Rightarrow>
          (case objs s src of
             None \<Rightarrow> Inl (UseAfterFree src)
           | Some other \<Rightarrow>
               Inr (s\<lparr>objs := (objs s)(a \<mapsto> intrusive_ref_counter_assign this other)\<rparr>)))"

definition use_count :: "state \<Rightarrow> addr \<Rightarrow> error + stored_type" where
  "use_count s p =
     (case objs s p of None \<Rightarrow> Inl (UseAfterFree p) | Some c \<Rightarrow> Inr (counter c))"

text \<open>\<open>inc\<close>: \<open>counter.fetch_add(1)\<close>.\<close>

definition inc :: "addr \<Rightarrow> state \<Rightarrow> error + state" where
  "inc p s =
     (case objs s p of
        None \<Rightarrow> Inl (UseAfterFree p)
      | Some c \<Rightarrow>
          Inr (s\<lparr>objs := (objs s)(p \<mapsto> c\<lparr>counter := counter c + 1\<rparr>),
                 trace := trace s @ [Inc p]\<rparr>))"

text \<open>\<open>dec\<close>: \<open>return counter.fetch_sub(1)\<close>, the value read before subtracting.\<close>

definition dec :: "addr \<Rightarrow> state \<Rightarrow> error + (stored_type \<times> state)" where
  "dec p s =
     (case objs s p of
        None \<Rightarrow> Inl (UseAfterFree p)
      | Some c \<Rightarrow>
          Inr (counter c,
               s\<lparr>objs := (objs s)(p \<mapsto> c\<lparr>counter := counter c - 1\<rparr>),
                 trace := trace s @ [Dec p (counter c)]\<rparr>))"

text \<open>
  \<open>delete static_cast<const Derived*>(p)\<close>: the object stops being live. What the
  destructor of \<open>Derived\<close> does besides is the user's code, not this file's.
\<close>

definition delete_obj :: "addr \<Rightarrow> state \<Rightarrow> state" where
  "delete_obj p s = s\<lparr>objs := (objs s)(p := None), trace := trace s @ [Delete p]\<rparr>"

definition intrusive_ptr_add_ref :: "addr \<Rightarrow> state \<Rightarrow> error + state" where
  "intrusive_ptr_add_ref p s = inc p s"

definition intrusive_ptr_release :: "addr \<Rightarrow> state \<Rightarrow> error + state" where
  "intrusive_ptr_release p s =
     and_then (dec p s) (\<lambda>(old, s'). if old = 1 then Inr (delete_obj p s') else Inr s')"

section \<open>The handle\<close>

text \<open>
  A constructor returns the instance it built together with the store; a named
  instance is then put into \<open>ptrs\<close>, a temporary stays a value. An operation that takes
  a reference to an existing instance takes its identifier.
\<close>

definition handle_at :: "state \<Rightarrow> hid \<Rightarrow> error + intrusive_ptr" where
  "handle_at s h = (case ptrs s h of None \<Rightarrow> Inl (NoHandle h) | Some v \<Rightarrow> Inr v)"

text \<open>\<open>intrusive_ptr() noexcept = default\<close>, with \<open>obj_pointer = nullptr\<close>.\<close>

definition intrusive_ptr_default :: intrusive_ptr where
  "intrusive_ptr_default = \<lparr>obj_pointer = None\<rparr>"

text \<open>\<open>intrusive_ptr(T* p, bool add_ref = true)\<close>.\<close>

definition intrusive_ptr_raw :: "ptr \<Rightarrow> bool \<Rightarrow> state \<Rightarrow> error + (intrusive_ptr \<times> state)" where
  "intrusive_ptr_raw p add_ref s =
     (let this = \<lparr>obj_pointer = p\<rparr> in
      if add_ref \<and> obj_pointer this \<noteq> None
      then and_then (intrusive_ptr_add_ref (the (obj_pointer this)) s) (\<lambda>s'. Inr (this, s'))
      else Inr (this, s))"

text \<open>
  \<open>intrusive_ptr(intrusive_ptr const& r)\<close>. The converting copy constructor from
  \<open>intrusive_ptr<Y>\<close> has the same body; the conversion of \<open>Y*\<close> to \<open>T*\<close> keeps the
  address.
\<close>

definition intrusive_ptr_copy :: "hid \<Rightarrow> state \<Rightarrow> error + (intrusive_ptr \<times> state)" where
  "intrusive_ptr_copy r s =
     and_then (handle_at s r) (\<lambda>rv.
       let this = \<lparr>obj_pointer = obj_pointer rv\<rparr> in
       if obj_pointer this \<noteq> None
       then and_then (intrusive_ptr_add_ref (the (obj_pointer this)) s) (\<lambda>s'. Inr (this, s'))
       else Inr (this, s))"

text \<open>\<open>intrusive_ptr(intrusive_ptr&& r)\<close>, and the converting move constructor alike.\<close>

definition intrusive_ptr_move :: "hid \<Rightarrow> state \<Rightarrow> error + (intrusive_ptr \<times> state)" where
  "intrusive_ptr_move r s =
     and_then (handle_at s r) (\<lambda>rv.
       Inr (\<lparr>obj_pointer = obj_pointer rv\<rparr>,
            s\<lparr>ptrs := (ptrs s)(r \<mapsto> rv\<lparr>obj_pointer := None\<rparr>)\<rparr>))"

text \<open>\<open>~intrusive_ptr()\<close>, on the instance \<open>this\<close>.\<close>

definition intrusive_ptr_dtor :: "intrusive_ptr \<Rightarrow> state \<Rightarrow> error + state" where
  "intrusive_ptr_dtor this s =
     (if obj_pointer this \<noteq> None then intrusive_ptr_release (the (obj_pointer this)) s
      else Inr s)"

text \<open>
  \<open>swap\<close>: \<open>std::swap(b.obj_pointer, this->obj_pointer)\<close>. \<open>swap\<close> is the member called
  on a named instance; \<open>swap_temp\<close> is the member called on a temporary \<open>tmp\<close> and
  returns the temporary as it is afterwards.
\<close>

definition swap :: "hid \<Rightarrow> hid \<Rightarrow> state \<Rightarrow> error + state" where
  "swap this b s =
     and_then (handle_at s this) (\<lambda>tv.
     and_then (handle_at s b) (\<lambda>bv.
       Inr (s\<lparr>ptrs := (ptrs s)(b \<mapsto> bv\<lparr>obj_pointer := obj_pointer tv\<rparr>,
                                 this \<mapsto> tv\<lparr>obj_pointer := obj_pointer bv\<rparr>)\<rparr>)))"

definition swap_temp :: "intrusive_ptr \<Rightarrow> hid \<Rightarrow> state \<Rightarrow> error + (intrusive_ptr \<times> state)" where
  "swap_temp tmp b s =
     and_then (handle_at s b) (\<lambda>bv.
       Inr (tmp\<lparr>obj_pointer := obj_pointer bv\<rparr>,
            s\<lparr>ptrs := (ptrs s)(b \<mapsto> bv\<lparr>obj_pointer := obj_pointer tmp\<rparr>)\<rparr>))"

text \<open>
  \<open>intrusive_ptr(...).swap(*this)\<close>: the temporary, already constructed, is swapped
  with \<open>*this\<close> and destroyed at the end of the full expression.
\<close>

definition swap_into :: "hid \<Rightarrow> intrusive_ptr \<times> state \<Rightarrow> error + state" where
  "swap_into this = (\<lambda>(tmp, s).
     and_then (swap_temp tmp this s) (\<lambda>(tmp', s'). intrusive_ptr_dtor tmp' s'))"

text \<open>\<open>operator=(intrusive_ptr const& r)\<close>: \<open>this != &r\<close> compares the instances.\<close>

definition copy_assign :: "hid \<Rightarrow> hid \<Rightarrow> state \<Rightarrow> error + state" where
  "copy_assign this r s =
     (if this \<noteq> r then and_then (intrusive_ptr_copy r s) (swap_into this) else Inr s)"

text \<open>\<open>operator=(intrusive_ptr<Y> const& r)\<close>: no comparison.\<close>

definition conv_copy_assign :: "hid \<Rightarrow> hid \<Rightarrow> state \<Rightarrow> error + state" where
  "conv_copy_assign this r s = and_then (intrusive_ptr_copy r s) (swap_into this)"

text \<open>\<open>operator=(T* r)\<close>: \<open>add_ref\<close> takes its default \<open>true\<close>.\<close>

definition raw_assign :: "hid \<Rightarrow> ptr \<Rightarrow> state \<Rightarrow> error + state" where
  "raw_assign this r s = and_then (intrusive_ptr_raw r True s) (swap_into this)"

text \<open>\<open>operator=(intrusive_ptr&& r)\<close> and \<open>operator=(intrusive_ptr<Y>&& r)\<close>.\<close>

definition move_assign :: "hid \<Rightarrow> hid \<Rightarrow> state \<Rightarrow> error + state" where
  "move_assign this r s =
     (if this \<noteq> r then and_then (intrusive_ptr_move r s) (swap_into this) else Inr s)"

definition conv_move_assign :: "hid \<Rightarrow> hid \<Rightarrow> state \<Rightarrow> error + state" where
  "conv_move_assign this r s = and_then (intrusive_ptr_move r s) (swap_into this)"

text \<open>\<open>reset()\<close>, \<open>reset(T* r)\<close> and \<open>reset(T* r, bool add_ref)\<close>.\<close>

definition reset :: "hid \<Rightarrow> state \<Rightarrow> error + state" where
  "reset this s = swap_into this (intrusive_ptr_default, s)"

definition reset_raw :: "hid \<Rightarrow> ptr \<Rightarrow> state \<Rightarrow> error + state" where
  "reset_raw this r s = and_then (intrusive_ptr_raw r True s) (swap_into this)"

definition reset_raw_flag :: "hid \<Rightarrow> ptr \<Rightarrow> bool \<Rightarrow> state \<Rightarrow> error + state" where
  "reset_raw_flag this r add_ref s = and_then (intrusive_ptr_raw r add_ref s) (swap_into this)"

definition get :: "state \<Rightarrow> hid \<Rightarrow> error + ptr" where
  "get s this = and_then (handle_at s this) (\<lambda>v. Inr (obj_pointer v))"

definition detach :: "hid \<Rightarrow> state \<Rightarrow> error + (ptr \<times> state)" where
  "detach this s =
     and_then (handle_at s this) (\<lambda>v.
       let current_obj_pointer = obj_pointer v in
       Inr (current_obj_pointer, s\<lparr>ptrs := (ptrs s)(this \<mapsto> v\<lparr>obj_pointer := None\<rparr>)\<rparr>))"

section \<open>Programs over handles\<close>

text \<open>
  A named instance comes into being where none is (\<open>emplace\<close>) and ends with its
  destructor (\<open>destroy\<close>). An \<open>op\<close> is one statement of a client; \<open>run\<close> executes a
  list of them and stops at the first undefined one.
\<close>

definition emplace :: "hid \<Rightarrow> intrusive_ptr \<times> state \<Rightarrow> error + state" where
  "emplace h = (\<lambda>(v, s).
     if ptrs s h \<noteq> None then Inl (HandleExists h)
     else Inr (s\<lparr>ptrs := (ptrs s)(h \<mapsto> v)\<rparr>))"

definition destroy :: "hid \<Rightarrow> state \<Rightarrow> error + state" where
  "destroy h s =
     and_then (handle_at s h) (\<lambda>v.
     and_then (intrusive_ptr_dtor v s) (\<lambda>s'.
       Inr (s'\<lparr>ptrs := (ptrs s')(h := None)\<rparr>)))"

datatype op =
    DefaultConstruct hid
  | Construct hid ptr bool
  | CopyConstruct hid hid
  | MoveConstruct hid hid
  | Destroy hid
  | CopyAssign hid hid
  | ConvCopyAssign hid hid
  | RawAssign hid ptr
  | MoveAssign hid hid
  | ConvMoveAssign hid hid
  | Reset hid
  | ResetRaw hid ptr
  | ResetRawFlag hid ptr bool
  | Detach hid
  | Swap hid hid

fun step :: "op \<Rightarrow> state \<Rightarrow> error + state" where
  "step (DefaultConstruct h) s = emplace h (intrusive_ptr_default, s)"
| "step (Construct h p add_ref) s = and_then (intrusive_ptr_raw p add_ref s) (emplace h)"
| "step (CopyConstruct h r) s = and_then (intrusive_ptr_copy r s) (emplace h)"
| "step (MoveConstruct h r) s = and_then (intrusive_ptr_move r s) (emplace h)"
| "step (Destroy h) s = destroy h s"
| "step (CopyAssign h r) s = copy_assign h r s"
| "step (ConvCopyAssign h r) s = conv_copy_assign h r s"
| "step (RawAssign h p) s = raw_assign h p s"
| "step (MoveAssign h r) s = move_assign h r s"
| "step (ConvMoveAssign h r) s = conv_move_assign h r s"
| "step (Reset h) s = reset h s"
| "step (ResetRaw h p) s = reset_raw h p s"
| "step (ResetRawFlag h p add_ref) s = reset_raw_flag h p add_ref s"
| "step (Detach h) s = and_then (detach h s) (\<lambda>(p, s'). Inr s')"
| "step (Swap a b) s = swap a b s"

fun run :: "op list \<Rightarrow> state \<Rightarrow> error + state" where
  "run [] s = Inr s"
| "run (x # xs) s = and_then (step x s) (run xs)"

text \<open>
  Reading a trace. \<open>paired\<close>: every \<open>Delete\<close> stands right after a \<open>Dec\<close> of the same
  object that read 1, and every \<open>Dec\<close> that read 1 is followed by that \<open>Delete\<close>.
  \<open>is_delete\<close> picks the \<open>Delete\<close> events.
\<close>

fun paired :: "event list \<Rightarrow> bool" where
  "paired [] = True"
| "paired (Dec p v # Delete q # es) = (v = 1 \<and> q = p \<and> paired es)"
| "paired (Dec p v # es) = (v \<noteq> 1 \<and> paired es)"
| "paired (Delete q # es) = False"
| "paired (Inc p # es) = paired es"

fun is_delete :: "event \<Rightarrow> bool" where
  "is_delete (Delete p) = True"
| "is_delete e = False"

text \<open>Dropping a copy: by its destructor (\<open>True\<close>) or by \<open>reset()\<close> (\<open>False\<close>).\<close>

fun drop_op :: "bool \<times> hid \<Rightarrow> op" where
  "drop_op (d, h) = (if d then Destroy h else Reset h)"

text \<open>Taking one copy of the handle \<open>h\<close> into each of the new instances \<open>ids\<close>.\<close>

definition take_copies :: "hid \<Rightarrow> hid list \<Rightarrow> op list" where
  "take_copies h ids = map (\<lambda>i. CopyConstruct i h) ids"

text \<open>What \<open>use_count\<close> of the object at \<open>a\<close> reads after the operations \<open>xs\<close>.\<close>

definition count_after :: "op list \<Rightarrow> state \<Rightarrow> addr \<Rightarrow> error + stored_type" where
  "count_after xs s a = and_then (run xs s) (\<lambda>s'. use_count s' a)"

text \<open>
  Two stores for examples: in \<open>fresh_store\<close> the object at address 7 has just been
  constructed and nothing refers to it; in \<open>owned_store\<close> the handle 1 holds it and its
  count is 1.
\<close>

definition fresh_store :: state where
  "fresh_store = \<lparr>objs = [7 \<mapsto> \<lparr>counter = 0\<rparr>], ptrs = Map.empty, trace = []\<rparr>"

definition owned_store :: state where
  "owned_store =
     \<lparr>objs = [7 \<mapsto> \<lparr>counter = 1\<rparr>], ptrs = [1 \<mapsto> \<lparr>obj_pointer = Some 7\<rparr>], trace = []\<rparr>"

text \<open>
  The relation between a store and a later one that the proofs below carry through
  every operation: the trace grew by events \<open>es\<close> that are \<open>paired\<close> and delete no
  object twice, the objects no longer live are those that were not live before and
  those deleted in \<open>es\<close>, and only live objects were deleted.
\<close>

definition evolves :: "state \<Rightarrow> state \<Rightarrow> bool" where
  "evolves s s' =
     (\<exists>es. trace s' = trace s @ es \<and> paired es \<and> distinct (filter is_delete es)
        \<and> (\<forall>a. (objs s' a = None) = (objs s a = None \<or> Delete a \<in> set es))
        \<and> (\<forall>a. Delete a \<in> set es \<longrightarrow> objs s a \<noteq> None))"

text \<open>
  What a client owes the handle at each operation. \<open>holders hs P a\<close> counts the
  handles among \<open>hs\<close> that hold the address \<open>a\<close>. \<open>no_wrap\<close>: an increment of the
  pointee's counter does not wrap to 0. \<open>raw_ok\<close>, for a raw pointer given to a
  constructor, an assignment or \<open>reset\<close>: it is null, or its object is live and, with
  \<open>add_ref\<close>, the increment does not wrap, and without \<open>add_ref\<close> the count is greater
  than the number of handles holding the object (the reference adopted is one that no
  handle holds yet). \<open>copy_ok\<close>: the source handle exists and the increment does not
  wrap. \<open>op_ok\<close> adds that a constructed handle is new and a used handle exists.
\<close>

definition holders :: "hid list \<Rightarrow> (hid \<rightharpoonup> intrusive_ptr) \<Rightarrow> addr \<Rightarrow> nat" where
  "holders hs P a = length (filter (\<lambda>h. map_option obj_pointer (P h) = Some (Some a)) hs)"

definition no_wrap :: "state \<Rightarrow> ptr \<Rightarrow> bool" where
  "no_wrap s p =
     (case p of None \<Rightarrow> True
      | Some a \<Rightarrow> (case objs s a of None \<Rightarrow> True | Some c \<Rightarrow> counter c + 1 \<noteq> 0))"

definition raw_ok :: "hid list \<Rightarrow> state \<Rightarrow> ptr \<Rightarrow> bool \<Rightarrow> bool" where
  "raw_ok hs s p add_ref =
     (case p of None \<Rightarrow> True
      | Some a \<Rightarrow>
          (case objs s a of None \<Rightarrow> False
           | Some c \<Rightarrow>
               if add_ref then counter c + 1 \<noteq> 0
               else holders hs (ptrs s) a < unat (counter c)))"

definition copy_ok :: "state \<Rightarrow> hid \<Rightarrow> bool" where
  "copy_ok s r = (case ptrs s r of None \<Rightarrow> False | Some v \<Rightarrow> no_wrap s (obj_pointer v))"

fun op_ok :: "hid list \<Rightarrow> state \<Rightarrow> op \<Rightarrow> bool" where
  "op_ok hs s (DefaultConstruct h) = (ptrs s h = None)"
| "op_ok hs s (Construct h p add_ref) = (ptrs s h = None \<and> raw_ok hs s p add_ref)"
| "op_ok hs s (CopyConstruct h r) = (ptrs s h = None \<and> copy_ok s r)"
| "op_ok hs s (MoveConstruct h r) = (ptrs s h = None \<and> ptrs s r \<noteq> None)"
| "op_ok hs s (Destroy h) = (ptrs s h \<noteq> None)"
| "op_ok hs s (CopyAssign h r) = (ptrs s h \<noteq> None \<and> copy_ok s r)"
| "op_ok hs s (ConvCopyAssign h r) = (ptrs s h \<noteq> None \<and> copy_ok s r)"
| "op_ok hs s (RawAssign h p) = (ptrs s h \<noteq> None \<and> raw_ok hs s p True)"
| "op_ok hs s (MoveAssign h r) = (ptrs s h \<noteq> None \<and> ptrs s r \<noteq> None)"
| "op_ok hs s (ConvMoveAssign h r) = (ptrs s h \<noteq> None \<and> ptrs s r \<noteq> None)"
| "op_ok hs s (Reset h) = (ptrs s h \<noteq> None)"
| "op_ok hs s (ResetRaw h p) = (ptrs s h \<noteq> None \<and> raw_ok hs s p True)"
| "op_ok hs s (ResetRawFlag h p add_ref) = (ptrs s h \<noteq> None \<and> raw_ok hs s p add_ref)"
| "op_ok hs s (Detach h) = (ptrs s h \<noteq> None)"
| "op_ok hs s (Swap a b) = (ptrs s a \<noteq> None \<and> ptrs s b \<noteq> None)"

text \<open>The handles that exist after an operation, given those before it.\<close>

fun handles_after :: "hid list \<Rightarrow> op \<Rightarrow> hid list" where
  "handles_after hs (DefaultConstruct h) = h # hs"
| "handles_after hs (Construct h p add_ref) = h # hs"
| "handles_after hs (CopyConstruct h r) = h # hs"
| "handles_after hs (MoveConstruct h r) = h # hs"
| "handles_after hs (Destroy h) = removeAll h hs"
| "handles_after hs x = hs"

text \<open>
  \<open>disciplined hs s xs\<close>: every operation of \<open>xs\<close> meets \<open>op_ok\<close> in the store it is
  run in, starting from \<open>s\<close> with the handles \<open>hs\<close>. Nothing is asked after an
  operation that returns an error, so the predicate does not say that any operation is
  defined.
\<close>

fun disciplined :: "hid list \<Rightarrow> state \<Rightarrow> op list \<Rightarrow> bool" where
  "disciplined hs s [] = True"
| "disciplined hs s (x # xs) =
     (op_ok hs s x \<and>
      (case step x s of Inl e \<Rightarrow> True | Inr s' \<Rightarrow> disciplined (handles_after hs x) s' xs))"

text \<open>
  The account the proofs keep: \<open>hs\<close> lists the handles \<open>P\<close> without repetition, and for
  every address the number of handles holding it, plus one if the temporary in flight
  holds it (\<open>extra t\<close>), is at most the counter of the object there, and is 0 where no
  object is live.
\<close>

definition extra :: "ptr \<Rightarrow> addr \<Rightarrow> nat" where
  "extra t a = (if t = Some a then 1 else 0)"

definition covers :: "(addr \<rightharpoonup> intrusive_ref_counter) \<Rightarrow> addr \<Rightarrow> nat \<Rightarrow> bool" where
  "covers M a n = (case M a of None \<Rightarrow> n = 0 | Some c \<Rightarrow> n \<le> unat (counter c))"

definition accounted ::
  "hid list \<Rightarrow> (hid \<rightharpoonup> intrusive_ptr) \<Rightarrow> (addr \<rightharpoonup> intrusive_ref_counter) \<Rightarrow> ptr \<Rightarrow> bool" where
  "accounted hs P M t =
     (distinct hs \<and> set hs = dom P \<and> (\<forall>a. covers M a (holders hs P a + extra t a)))"

section \<open>Unfolding the operations\<close>

lemmas counter_defs =
  use_count_def inc_def dec_def delete_obj_def intrusive_ptr_add_ref_def
  intrusive_ptr_release_def and_then_def

lemmas handle_defs =
  handle_at_def intrusive_ptr_default_def intrusive_ptr_raw_def intrusive_ptr_copy_def
  intrusive_ptr_move_def intrusive_ptr_dtor_def swap_temp_def swap_into_def emplace_def
  destroy_def get_def detach_def Let_def

lemma and_then_Inr: "and_then r f = Inr y \<Longrightarrow> \<exists>x. r = Inr x \<and> f x = Inr y"
  by (cases r) (auto simp: and_then_def)

section \<open>The protocol operations\<close>

text \<open>
  C1. On a live object whose counter reads \<open>c\<close>, \<open>intrusive_ptr_release\<close> first
  decrements (\<open>dec\<close> returns \<open>c\<close>, the value before the decrement, and its event comes
  first); when \<open>c\<close> is 1 it then deletes the object, and otherwise it stops there: the
  object stays live with counter \<open>c - 1\<close>. The object is gone afterwards if and only if
  \<open>c\<close> was 1. No other object and no handle changes.
\<close>

theorem release_destroys_iff_one:
  assumes "objs s p = Some c"
  shows "\<exists>s1 s'. dec p s = Inr (counter c, s1) \<and> trace s1 = trace s @ [Dec p (counter c)]
           \<and> intrusive_ptr_release p s = Inr s'
           \<and> (objs s' p = None) = (counter c = 1)
           \<and> trace s' = trace s1 @ (if counter c = 1 then [Delete p] else [])
           \<and> objs s' p = (if counter c = 1 then None else Some (c\<lparr>counter := counter c - 1\<rparr>))
           \<and> (objs s')(p := None) = (objs s)(p := None)
           \<and> ptrs s' = ptrs s"
  using assms
  by (simp add: intrusive_ptr_release_def dec_def and_then_def delete_obj_def)

theorem release_destroys_iff_one_witness:
  "objs \<lparr>objs = [7 \<mapsto> \<lparr>counter = 1\<rparr>, 8 \<mapsto> \<lparr>counter = 2\<rparr>], ptrs = Map.empty, trace = []\<rparr> 7
     = Some \<lparr>counter = 1\<rparr>
   \<and> (\<exists>s'. intrusive_ptr_release 7
          \<lparr>objs = [7 \<mapsto> \<lparr>counter = 1\<rparr>, 8 \<mapsto> \<lparr>counter = 2\<rparr>], ptrs = Map.empty, trace = []\<rparr>
          = Inr s'
        \<and> objs s' 7 = None \<and> trace s' = [Dec 7 1, Delete 7])
   \<and> (\<exists>s'. intrusive_ptr_release 8
          \<lparr>objs = [7 \<mapsto> \<lparr>counter = 1\<rparr>, 8 \<mapsto> \<lparr>counter = 2\<rparr>], ptrs = Map.empty, trace = []\<rparr>
          = Inr s'
        \<and> objs s' 8 = Some \<lparr>counter = 1\<rparr> \<and> trace s' = [Dec 8 2])"
  using release_destroys_iff_one
    [of "\<lparr>objs = [7 \<mapsto> \<lparr>counter = 1\<rparr>, 8 \<mapsto> \<lparr>counter = 2\<rparr>], ptrs = Map.empty, trace = []\<rparr>"
        7 "\<lparr>counter = 1\<rparr>"]
    release_destroys_iff_one
    [of "\<lparr>objs = [7 \<mapsto> \<lparr>counter = 1\<rparr>, 8 \<mapsto> \<lparr>counter = 2\<rparr>], ptrs = Map.empty, trace = []\<rparr>"
        8 "\<lparr>counter = 2\<rparr>"]
  by auto

text \<open>
  C10. Releasing a live object whose counter reads 0 does not delete it: the only
  event is the decrement that read 0, and the counter wraps around to \<open>- 1\<close>, the
  largest value of the type, \<open>2 ^ 32 - 1\<close>.
\<close>

theorem release_at_zero_wraps:
  assumes "objs s p = Some c" and "counter c = 0"
  shows "\<exists>s'. intrusive_ptr_release p s = Inr s'
     \<and> objs s' p \<noteq> None
     \<and> trace s' = trace s @ [Dec p 0]
     \<and> use_count s' p = Inr (- 1)
     \<and> unat (- 1 :: stored_type) = 4294967295
     \<and> (\<forall>w :: stored_type. w \<le> - 1)"
  using assms by (auto simp: counter_defs unsigned_minus_1_eq_mask mask_eq_exp_minus_1)

theorem release_at_zero_wraps_witness:
  "objs fresh_store 7 = Some \<lparr>counter = 0\<rparr>
   \<and> (\<exists>s'. intrusive_ptr_release 7 fresh_store = Inr s' \<and> objs s' 7 \<noteq> None
         \<and> trace s' = [Dec 7 0] \<and> use_count s' 7 = Inr 4294967295)"
  using release_at_zero_wraps [of fresh_store 7 "\<lparr>counter = 0\<rparr>"]
  by (auto simp: fresh_store_def)

section \<open>The counter mixin's special members\<close>

text \<open>
  C3. A default-constructed counter reads 0. A copy-constructed counter reads 0 whatever
  the source reads, and the source keeps its count. Copy assignment leaves the count of
  the assignee and the count of the source as they were.
\<close>

theorem counter_special_members:
  "(objs s a = None \<longrightarrow>
      (\<exists>s'. construct_default a s = Inr s' \<and> use_count s' a = Inr 0))
   \<and> (objs s a = None \<and> objs s src = Some c \<longrightarrow>
      (\<exists>s'. construct_copy a src s = Inr s' \<and> use_count s' a = Inr 0
            \<and> use_count s' src = Inr (counter c)))
   \<and> (objs s a = Some d \<and> objs s src = Some c \<longrightarrow>
      (\<exists>s'. assign_copy a src s = Inr s' \<and> use_count s' a = Inr (counter d)
            \<and> use_count s' src = Inr (counter c)))"
  by (auto simp: construct_default_def construct_copy_def assign_copy_def use_count_def
      intrusive_ref_counter_default_def intrusive_ref_counter_copy_def
      intrusive_ref_counter_assign_def)

theorem counter_special_members_witness:
  "(\<exists>s'. construct_default 9
            \<lparr>objs = [7 \<mapsto> \<lparr>counter = 5\<rparr>, 8 \<mapsto> \<lparr>counter = 2\<rparr>], ptrs = Map.empty, trace = []\<rparr>
          = Inr s' \<and> use_count s' 9 = Inr 0)
   \<and> (\<exists>s'. construct_copy 9 7
            \<lparr>objs = [7 \<mapsto> \<lparr>counter = 5\<rparr>, 8 \<mapsto> \<lparr>counter = 2\<rparr>], ptrs = Map.empty, trace = []\<rparr>
          = Inr s' \<and> use_count s' 9 = Inr 0 \<and> use_count s' 7 = Inr 5)
   \<and> (\<exists>s'. assign_copy 8 7
            \<lparr>objs = [7 \<mapsto> \<lparr>counter = 5\<rparr>, 8 \<mapsto> \<lparr>counter = 2\<rparr>], ptrs = Map.empty, trace = []\<rparr>
          = Inr s' \<and> use_count s' 8 = Inr 2 \<and> use_count s' 7 = Inr 5)"
  using counter_special_members
    [of "\<lparr>objs = [7 \<mapsto> \<lparr>counter = 5\<rparr>, 8 \<mapsto> \<lparr>counter = 2\<rparr>], ptrs = Map.empty, trace = []\<rparr>"
        9 7 "\<lparr>counter = 5\<rparr>" "\<lparr>counter = 2\<rparr>"]
    counter_special_members
    [of "\<lparr>objs = [7 \<mapsto> \<lparr>counter = 5\<rparr>, 8 \<mapsto> \<lparr>counter = 2\<rparr>], ptrs = Map.empty, trace = []\<rparr>"
        8 7 "\<lparr>counter = 5\<rparr>" "\<lparr>counter = 2\<rparr>"]
  by simp

section \<open>Single operations on a handle\<close>

text \<open>
  C4. Constructing the new handle \<open>h\<close> from the raw pointer \<open>p\<close> stores \<open>p\<close> in it. When
  \<open>add_ref\<close> holds and \<open>p\<close> is the address \<open>a\<close> of a live object, the store is the one
  \<open>intrusive_ptr_add_ref a\<close> returns, with the handle added: the one new event is
  \<open>Inc a\<close> and the count of \<open>a\<close> is one more. When \<open>add_ref\<close> is false or \<open>p\<close> is null,
  there is no event and no counter changes.
\<close>

theorem construct_from_raw:
  assumes "ptrs s h = None"
  shows "(add_ref \<and> p = Some a \<and> objs s a = Some c \<longrightarrow>
           (\<exists>s0 s'. intrusive_ptr_add_ref a s = Inr s0
              \<and> step (Construct h p add_ref) s = Inr s'
              \<and> s' = s0\<lparr>ptrs := (ptrs s0)(h \<mapsto> \<lparr>obj_pointer = p\<rparr>)\<rparr>
              \<and> get s' h = Inr p
              \<and> trace s' = trace s @ [Inc a]
              \<and> use_count s' a = Inr (counter c + 1)
              \<and> objs s' = (objs s)(a \<mapsto> c\<lparr>counter := counter c + 1\<rparr>)))
       \<and> (\<not> add_ref \<or> p = None \<longrightarrow>
           (\<exists>s'. step (Construct h p add_ref) s = Inr s'
              \<and> get s' h = Inr p \<and> trace s' = trace s \<and> objs s' = objs s))"
  using assms by (auto simp: counter_defs handle_defs)

theorem construct_from_raw_witness:
  "ptrs fresh_store 1 = None
   \<and> (\<exists>s'. step (Construct 1 (Some 7) True) fresh_store = Inr s'
         \<and> get s' 1 = Inr (Some 7) \<and> trace s' = [Inc 7] \<and> use_count s' 7 = Inr 1)
   \<and> (\<exists>s'. step (Construct 1 (Some 7) False) fresh_store = Inr s'
         \<and> get s' 1 = Inr (Some 7) \<and> trace s' = [] \<and> use_count s' 7 = Inr 0)
   \<and> (\<exists>s'. step (Construct 1 None True) fresh_store = Inr s'
         \<and> get s' 1 = Inr None \<and> trace s' = [] \<and> use_count s' 7 = Inr 0)"
  using construct_from_raw [of fresh_store 1 True "Some 7" 7 "\<lparr>counter = 0\<rparr>"]
    construct_from_raw [of fresh_store 1 False "Some 7" 7 "\<lparr>counter = 0\<rparr>"]
    construct_from_raw [of fresh_store 1 True None 7 "\<lparr>counter = 0\<rparr>"]
  by (auto simp: fresh_store_def use_count_def)

text \<open>
  C5. Move-constructing the new handle \<open>h\<close> from the handle \<open>r\<close> gives \<open>h\<close> the address
  \<open>r\<close> held and leaves \<open>r\<close> null. No counter is touched: there is no event, the objects
  are as before, and \<open>use_count\<close> of every object reads the same.
\<close>

theorem move_construct_transfers:
  assumes "ptrs s r = Some rv" and "ptrs s h = None"
  shows "\<exists>s'. step (MoveConstruct h r) s = Inr s'
          \<and> get s' h = Inr (obj_pointer rv) \<and> get s' r = Inr None
          \<and> objs s' = objs s \<and> trace s' = trace s
          \<and> use_count s' a = use_count s a"
  using assms by (auto simp: counter_defs handle_defs)

theorem move_construct_transfers_witness:
  "ptrs owned_store 1 = Some \<lparr>obj_pointer = Some 7\<rparr> \<and> ptrs owned_store 2 = None
   \<and> use_count owned_store 7 = Inr 1
   \<and> (\<exists>s'. step (MoveConstruct 2 1) owned_store = Inr s'
         \<and> get s' 2 = Inr (Some 7) \<and> get s' 1 = Inr None
         \<and> trace s' = [] \<and> use_count s' 7 = Inr 1)"
  using move_construct_transfers [of owned_store 1 "\<lparr>obj_pointer = Some 7\<rparr>" 2 7]
  by (auto simp: owned_store_def use_count_def)

text \<open>
  C6. Assigning a handle to itself, by copy assignment or by move assignment, returns
  the store as it was: \<open>get\<close> of the handle and \<open>use_count\<close> of every object read the
  same.
\<close>

theorem self_assignment_unchanged:
  "\<exists>s1 s2. step (CopyAssign h h) s = Inr s1 \<and> step (MoveAssign h h) s = Inr s2
     \<and> s1 = s \<and> s2 = s
     \<and> get s1 h = get s h \<and> use_count s1 a = use_count s a
     \<and> get s2 h = get s h \<and> use_count s2 a = use_count s a"
  by (simp add: copy_assign_def move_assign_def)

theorem self_assignment_unchanged_witness:
  "step (CopyAssign 1 1) owned_store = Inr owned_store
   \<and> step (MoveAssign 1 1) owned_store = Inr owned_store
   \<and> get owned_store 1 = Inr (Some 7) \<and> use_count owned_store 7 = Inr 1"
  using self_assignment_unchanged [of 1 owned_store 7]
  by (simp add: owned_store_def get_def use_count_def handle_at_def and_then_def)

text \<open>
  C7. For every raw pointer \<open>p\<close>: constructing the new handle \<open>h\<close> from \<open>p\<close> with
  \<open>add_ref = false\<close> and then calling \<open>detach\<close> returns \<open>p\<close> and leaves \<open>h\<close> null. The
  trace after the construction and after \<open>detach\<close> is the trace before (no increment,
  no decrement), and the objects are as before.
\<close>

theorem adopt_then_detach:
  assumes "ptrs s h = None"
  shows "\<exists>s1 s2. step (Construct h p False) s = Inr s1 \<and> detach h s1 = Inr (p, s2)
           \<and> get s2 h = Inr None
           \<and> trace s1 = trace s \<and> trace s2 = trace s
           \<and> objs s1 = objs s \<and> objs s2 = objs s"
  using assms by (auto simp: counter_defs handle_defs)

theorem adopt_then_detach_witness:
  "ptrs fresh_store 1 = None
   \<and> (\<exists>s1 s2. step (Construct 1 (Some 7) False) fresh_store = Inr s1
         \<and> detach 1 s1 = Inr (Some 7, s2) \<and> get s2 1 = Inr None
         \<and> trace s2 = [] \<and> use_count s2 7 = Inr 0)"
  using adopt_then_detach [of fresh_store 1 "Some 7"]
  by (auto simp: fresh_store_def use_count_def)

text \<open>
  C9. Let the handle \<open>h\<close> hold the address \<open>p\<close> of a live object whose count is not 0.
  Then \<open>h.reset(p)\<close> and \<open>h = p\<close> give the same store, in which \<open>h\<close> still holds \<open>p\<close>,
  every handle and every counter is as before and the object is live. The events are
  the increment by the temporary and then the decrement by its destructor, which reads
  the count plus one; no \<open>Delete\<close>. This holds also when the count was 1.
\<close>

theorem reset_to_same_pointer:
  assumes "ptrs s h = Some \<lparr>obj_pointer = Some p\<rparr>" and "objs s p = Some c"
    and "counter c \<noteq> 0"
  shows "\<exists>s1 s2. reset_raw h (Some p) s = Inr s1 \<and> raw_assign h (Some p) s = Inr s2
     \<and> s1 = s2
     \<and> get s1 h = Inr (Some p) \<and> use_count s1 p = use_count s p
     \<and> objs s1 = objs s \<and> ptrs s1 = ptrs s \<and> objs s1 p \<noteq> None
     \<and> trace s1 = trace s @ [Inc p, Dec p (counter c + 1)]"
  using assms by (auto simp: counter_defs handle_defs reset_raw_def raw_assign_def)

theorem reset_to_same_pointer_witness:
  "ptrs owned_store 1 = Some \<lparr>obj_pointer = Some 7\<rparr>
   \<and> objs owned_store 7 = Some \<lparr>counter = 1\<rparr>
   \<and> (\<exists>s1. reset_raw 1 (Some 7) owned_store = Inr s1
         \<and> raw_assign 1 (Some 7) owned_store = Inr s1
         \<and> get s1 1 = Inr (Some 7) \<and> use_count s1 7 = Inr 1
         \<and> trace s1 = [Inc 7, Dec 7 2])"
  using reset_to_same_pointer [of owned_store 1 7 "\<lparr>counter = 1\<rparr>"]
  by (auto simp: owned_store_def use_count_def)

section \<open>How the trace grows over a run\<close>

lemma paired_Dec_Cons: "paired ys \<Longrightarrow> paired (Dec p v # ys) = (v \<noteq> 1)"
  by (cases ys rule: paired.cases) auto

lemma paired_append: "paired xs \<Longrightarrow> paired ys \<Longrightarrow> paired (xs @ ys)"
  by (induction xs rule: paired.induct) (auto simp: paired_Dec_Cons)

lemma is_delete_iff: "is_delete e = (\<exists>a. e = Delete a)"
  by (cases e) auto

lemma evolves_refl: "evolves s s"
  by (auto simp: evolves_def)

lemma evolves_trans:
  assumes "evolves s s1" and "evolves s1 s2"
  shows "evolves s s2"
proof -
  from assms(1) obtain es where es: "trace s1 = trace s @ es" "paired es"
    "distinct (filter is_delete es)"
    "\<forall>a. (objs s1 a = None) = (objs s a = None \<or> Delete a \<in> set es)"
    "\<forall>a. Delete a \<in> set es \<longrightarrow> objs s a \<noteq> None"
    unfolding evolves_def by blast
  from assms(2) obtain fs where fs: "trace s2 = trace s1 @ fs" "paired fs"
    "distinct (filter is_delete fs)"
    "\<forall>a. (objs s2 a = None) = (objs s1 a = None \<or> Delete a \<in> set fs)"
    "\<forall>a. Delete a \<in> set fs \<longrightarrow> objs s1 a \<noteq> None"
    unfolding evolves_def by blast
  have disj: "set (filter is_delete es) \<inter> set (filter is_delete fs) = {}"
  proof (rule ccontr)
    assume "set (filter is_delete es) \<inter> set (filter is_delete fs) \<noteq> {}"
    then obtain e where e: "e \<in> set es" "e \<in> set fs" "is_delete e" by auto
    then obtain a where "e = Delete a" by (auto simp: is_delete_iff)
    with e es(4) fs(5) show False by blast
  qed
  have 1: "trace s2 = trace s @ (es @ fs)" using es(1) fs(1) by simp
  have 2: "paired (es @ fs)" using es(2) fs(2) by (rule paired_append)
  have 3: "distinct (filter is_delete (es @ fs))" using es(3) fs(3) disj by simp
  have 4: "\<forall>a. (objs s2 a = None) = (objs s a = None \<or> Delete a \<in> set (es @ fs))"
    using es(4) fs(4) by auto
  have 5: "\<forall>a. Delete a \<in> set (es @ fs) \<longrightarrow> objs s a \<noteq> None"
    using es(4,5) fs(5) by auto
  show ?thesis unfolding evolves_def using 1 2 3 4 5 by blast
qed

lemma evolves_ptrs: "evolves s (s\<lparr>ptrs := f\<rparr>)"
  by (auto simp: evolves_def)

lemma inc_evolves: "inc p s = Inr s' \<Longrightarrow> evolves s s'"
  by (auto simp: inc_def evolves_def split: option.splits)

lemma release_evolves: "intrusive_ptr_release p s = Inr s' \<Longrightarrow> evolves s s'"
  by (auto simp: intrusive_ptr_release_def dec_def delete_obj_def and_then_def evolves_def
      split: option.splits if_splits)

lemma raw_evolves: "intrusive_ptr_raw p b s = Inr (v, s') \<Longrightarrow> evolves s s'"
  by (auto simp: intrusive_ptr_raw_def intrusive_ptr_add_ref_def and_then_def Let_def
      evolves_refl inc_evolves split: if_splits sum.splits)

lemma copy_evolves: "intrusive_ptr_copy r s = Inr (v, s') \<Longrightarrow> evolves s s'"
  by (auto simp: intrusive_ptr_copy_def intrusive_ptr_add_ref_def and_then_def Let_def
      evolves_refl inc_evolves split: if_splits sum.splits)

lemma move_evolves: "intrusive_ptr_move r s = Inr (v, s') \<Longrightarrow> evolves s s'"
  by (auto simp: intrusive_ptr_move_def and_then_def evolves_ptrs split: sum.splits)

lemma dtor_evolves: "intrusive_ptr_dtor v s = Inr s' \<Longrightarrow> evolves s s'"
  by (auto simp: intrusive_ptr_dtor_def evolves_refl release_evolves split: if_splits)

lemma swap_temp_evolves: "swap_temp v h s = Inr (v', s') \<Longrightarrow> evolves s s'"
  by (auto simp: swap_temp_def and_then_def evolves_ptrs split: sum.splits)

lemma swap_into_evolves: "swap_into h (v, s) = Inr s' \<Longrightarrow> evolves s s'"
  by (auto simp: swap_into_def and_then_def split: sum.splits
      intro: evolves_trans swap_temp_evolves dtor_evolves)

lemma emplace_evolves: "emplace h (v, s) = Inr s' \<Longrightarrow> evolves s s'"
  by (auto simp: emplace_def evolves_ptrs split: if_splits)

lemma swap_evolves: "swap a b s = Inr s' \<Longrightarrow> evolves s s'"
  by (auto simp: swap_def and_then_def evolves_ptrs split: sum.splits)

lemma detach_evolves: "detach h s = Inr (p, s') \<Longrightarrow> evolves s s'"
  by (auto simp: detach_def and_then_def Let_def evolves_ptrs split: sum.splits)

lemma destroy_evolves: "destroy h s = Inr s' \<Longrightarrow> evolves s s'"
  by (auto simp: destroy_def and_then_def split: sum.splits
      intro: evolves_trans dtor_evolves evolves_ptrs)

lemma step_evolves: "step x s = Inr s' \<Longrightarrow> evolves s s'"
proof (cases x)
  case (DefaultConstruct h)
  assume "step x s = Inr s'"
  with DefaultConstruct show ?thesis by (auto intro: emplace_evolves)
next
  case (Construct h p b)
  assume "step x s = Inr s'"
  with Construct show ?thesis
    by (auto dest!: and_then_Inr intro: evolves_trans raw_evolves emplace_evolves)
next
  case (CopyConstruct h r)
  assume "step x s = Inr s'"
  with CopyConstruct show ?thesis
    by (auto dest!: and_then_Inr intro: evolves_trans copy_evolves emplace_evolves)
next
  case (MoveConstruct h r)
  assume "step x s = Inr s'"
  with MoveConstruct show ?thesis
    by (auto dest!: and_then_Inr intro: evolves_trans move_evolves emplace_evolves)
next
  case (Destroy h)
  assume "step x s = Inr s'"
  with Destroy show ?thesis by (auto intro: destroy_evolves)
next
  case (CopyAssign h r)
  assume "step x s = Inr s'"
  with CopyAssign show ?thesis
    by (auto simp: copy_assign_def evolves_refl split: if_splits dest!: and_then_Inr
        intro: evolves_trans copy_evolves swap_into_evolves)
next
  case (ConvCopyAssign h r)
  assume "step x s = Inr s'"
  with ConvCopyAssign show ?thesis
    by (auto simp: conv_copy_assign_def dest!: and_then_Inr
        intro: evolves_trans copy_evolves swap_into_evolves)
next
  case (RawAssign h p)
  assume "step x s = Inr s'"
  with RawAssign show ?thesis
    by (auto simp: raw_assign_def dest!: and_then_Inr
        intro: evolves_trans raw_evolves swap_into_evolves)
next
  case (MoveAssign h r)
  assume "step x s = Inr s'"
  with MoveAssign show ?thesis
    by (auto simp: move_assign_def evolves_refl split: if_splits dest!: and_then_Inr
        intro: evolves_trans move_evolves swap_into_evolves)
next
  case (ConvMoveAssign h r)
  assume "step x s = Inr s'"
  with ConvMoveAssign show ?thesis
    by (auto simp: conv_move_assign_def dest!: and_then_Inr
        intro: evolves_trans move_evolves swap_into_evolves)
next
  case (Reset h)
  assume "step x s = Inr s'"
  with Reset show ?thesis by (auto simp: reset_def intro: swap_into_evolves)
next
  case (ResetRaw h p)
  assume "step x s = Inr s'"
  with ResetRaw show ?thesis
    by (auto simp: reset_raw_def dest!: and_then_Inr
        intro: evolves_trans raw_evolves swap_into_evolves)
next
  case (ResetRawFlag h p b)
  assume "step x s = Inr s'"
  with ResetRawFlag show ?thesis
    by (auto simp: reset_raw_flag_def dest!: and_then_Inr
        intro: evolves_trans raw_evolves swap_into_evolves)
next
  case (Detach h)
  assume "step x s = Inr s'"
  with Detach show ?thesis by (auto dest!: and_then_Inr intro: detach_evolves)
next
  case (Swap a b)
  assume "step x s = Inr s'"
  with Swap show ?thesis by (auto intro: swap_evolves)
qed

lemma run_evolves: "run xs s = Inr s' \<Longrightarrow> evolves s s'"
proof (induction xs arbitrary: s)
  case Nil
  then show ?case by (simp add: evolves_refl)
next
  case (Cons x xs)
  from Cons.prems obtain s1 where "step x s = Inr s1" "run xs s1 = Inr s'"
    by (auto dest!: and_then_Inr)
  then show ?case using Cons.IH step_evolves evolves_trans by blast
qed

lemma distinct_filter_count:
  "distinct (filter P xs) \<Longrightarrow> P x \<Longrightarrow> count_list xs x \<le> 1"
  by (induction xs) (auto simp: count_list_0_iff split: if_splits)

section \<open>Counting copies\<close>

lemma step_CopyConstruct:
  assumes "ptrs s i = None" and "ptrs s h = Some \<lparr>obj_pointer = Some a\<rparr>"
    and "objs s a = Some c"
  shows "step (CopyConstruct i h) s =
     Inr (s\<lparr>objs := (objs s)(a \<mapsto> c\<lparr>counter := counter c + 1\<rparr>),
            trace := trace s @ [Inc a],
            ptrs := (ptrs s)(i \<mapsto> \<lparr>obj_pointer = Some a\<rparr>)\<rparr>)"
  using assms
  by (simp add: intrusive_ptr_copy_def handle_at_def and_then_def Let_def
      intrusive_ptr_add_ref_def inc_def emplace_def)

lemma step_drop:
  assumes "ptrs s i = Some \<lparr>obj_pointer = Some a\<rparr>" and "objs s a = Some c"
    and "counter c \<noteq> 1"
  shows "\<exists>s'. step (drop_op (d, i)) s = Inr s'
     \<and> objs s' = (objs s)(a \<mapsto> c\<lparr>counter := counter c - 1\<rparr>)
     \<and> (\<forall>j. j \<noteq> i \<longrightarrow> ptrs s' j = ptrs s j)"
  using assms
  by (simp add: destroy_def reset_def swap_into_def swap_temp_def intrusive_ptr_default_def
      handle_at_def and_then_def intrusive_ptr_dtor_def intrusive_ptr_release_def dec_def)

lemma run_take_copies:
  assumes "distinct ids" and "\<forall>i\<in>set ids. ptrs s i = None"
    and "ptrs s h = Some \<lparr>obj_pointer = Some a\<rparr>" and "objs s a = Some c"
  shows "\<exists>s'. run (take_copies h ids) s = Inr s'
     \<and> objs s' a = Some (c\<lparr>counter := counter c + of_nat (length ids)\<rparr>)
     \<and> (\<forall>i\<in>set ids. ptrs s' i = Some \<lparr>obj_pointer = Some a\<rparr>)
     \<and> (\<forall>j. j \<notin> set ids \<longrightarrow> ptrs s' j = ptrs s j)"
  using assms
proof (induction ids arbitrary: s c)
  case Nil
  then show ?case by (simp add: take_copies_def)
next
  case (Cons i ids)
  let ?c1 = "c\<lparr>counter := counter c + 1\<rparr>"
  let ?s1 = "s\<lparr>objs := (objs s)(a \<mapsto> ?c1), trace := trace s @ [Inc a],
            ptrs := (ptrs s)(i \<mapsto> \<lparr>obj_pointer = Some a\<rparr>)\<rparr>"
  have i: "ptrs s i = None" "i \<notin> set ids" "i \<noteq> h" using Cons.prems by auto
  have st: "step (CopyConstruct i h) s = Inr ?s1"
    using i(1) Cons.prems(3,4) by (rule step_CopyConstruct)
  have "\<exists>s'. run (take_copies h ids) ?s1 = Inr s'
     \<and> objs s' a = Some (?c1\<lparr>counter := counter ?c1 + of_nat (length ids)\<rparr>)
     \<and> (\<forall>j\<in>set ids. ptrs s' j = Some \<lparr>obj_pointer = Some a\<rparr>)
     \<and> (\<forall>j. j \<notin> set ids \<longrightarrow> ptrs s' j = ptrs ?s1 j)"
    using Cons.prems i by (intro Cons.IH) auto
  then obtain s' where s': "run (take_copies h ids) ?s1 = Inr s'"
    "objs s' a = Some (?c1\<lparr>counter := counter ?c1 + of_nat (length ids)\<rparr>)"
    "\<forall>j\<in>set ids. ptrs s' j = Some \<lparr>obj_pointer = Some a\<rparr>"
    "\<forall>j. j \<notin> set ids \<longrightarrow> ptrs s' j = ptrs ?s1 j"
    by blast
  have r: "run (take_copies h (i # ids)) s = Inr s'"
    using st s'(1) by (simp add: take_copies_def and_then_def)
  have o: "objs s' a = Some (c\<lparr>counter := counter c + of_nat (length (i # ids))\<rparr>)"
    using s'(2) by (simp add: add.assoc add.commute)
  have p: "\<forall>j\<in>set (i # ids). ptrs s' j = Some \<lparr>obj_pointer = Some a\<rparr>"
    using s'(3,4) i(2) by simp
  have f: "\<forall>j. j \<notin> set (i # ids) \<longrightarrow> ptrs s' j = ptrs s j"
    using s'(4) by simp
  show ?case using r o p f by blast
qed

lemma run_drops:
  assumes "distinct (map snd ds)"
    and "\<forall>i\<in>set (map snd ds). ptrs s i = Some \<lparr>obj_pointer = Some a\<rparr>"
    and "objs s a = Some c" and "length ds < unat (counter c)"
  shows "\<exists>s' c'. run (map drop_op ds) s = Inr s' \<and> objs s' a = Some c'
     \<and> unat (counter c') = unat (counter c) - length ds
     \<and> (\<forall>j. j \<notin> set (map snd ds) \<longrightarrow> ptrs s' j = ptrs s j)"
  using assms
proof (induction ds arbitrary: s c)
  case Nil
  then show ?case by simp
next
  case (Cons x ds)
  obtain d i where x: "x = (d, i)" by (cases x)
  let ?c1 = "c\<lparr>counter := counter c - 1\<rparr>"
  have big: "2 \<le> unat (counter c)" using Cons.prems(4) by simp
  then have ne: "counter c \<noteq> 1" "counter c \<noteq> 0" by auto
  have u1: "unat (counter ?c1) = unat (counter c) - 1"
    using ne(2) by (simp add: unat_minus_one)
  have h: "ptrs s i = Some \<lparr>obj_pointer = Some a\<rparr>" using Cons.prems(2) x by simp
  from step_drop [OF h Cons.prems(3) ne(1), of d] obtain s1 where
    s1: "step (drop_op (d, i)) s = Inr s1" "objs s1 = (objs s)(a \<mapsto> ?c1)"
    "\<forall>j. j \<noteq> i \<longrightarrow> ptrs s1 j = ptrs s j"
    by blast
  have "\<exists>s' c'. run (map drop_op ds) s1 = Inr s' \<and> objs s' a = Some c'
     \<and> unat (counter c') = unat (counter ?c1) - length ds
     \<and> (\<forall>j. j \<notin> set (map snd ds) \<longrightarrow> ptrs s' j = ptrs s1 j)"
  proof (rule Cons.IH)
    show "distinct (map snd ds)" using Cons.prems(1) by simp
    show "\<forall>j\<in>set (map snd ds). ptrs s1 j = Some \<lparr>obj_pointer = Some a\<rparr>"
    proof
      fix j
      assume j: "j \<in> set (map snd ds)"
      then have "j \<noteq> i" using Cons.prems(1) x by auto
      then have "ptrs s1 j = ptrs s j" using s1(3) by simp
      then show "ptrs s1 j = Some \<lparr>obj_pointer = Some a\<rparr>" using Cons.prems(2) j by auto
    qed
    show "objs s1 a = Some ?c1" using s1(2) by simp
    show "length ds < unat (counter ?c1)" using u1 Cons.prems(4) by simp
  qed
  then obtain s' c' where s': "run (map drop_op ds) s1 = Inr s'" "objs s' a = Some c'"
    "unat (counter c') = unat (counter ?c1) - length ds"
    "\<forall>j. j \<notin> set (map snd ds) \<longrightarrow> ptrs s' j = ptrs s1 j"
    by blast
  have r: "run (map drop_op (x # ds)) s = Inr s'"
    using s1(1) s'(1) x by (simp add: and_then_def)
  have u: "unat (counter c') = unat (counter c) - length (x # ds)"
    using s'(3) u1 by simp
  have f: "\<forall>j. j \<notin> set (map snd (x # ds)) \<longrightarrow> ptrs s' j = ptrs s j"
    using s'(4) s1(3) x by simp
  show ?case using r s'(2) u f by blast
qed

text \<open>
  C8, as amended. Let the handle \<open>h\<close> hold the live object \<open>a\<close>, whose count is 1, and
  take \<open>N\<close> copies of \<open>h\<close> into new handles \<open>ids\<close>, where \<open>N + 1 < 2 ^ 32\<close>. Then
  \<open>use_count\<close> reads \<open>N + 1\<close>. After that, destroy or reset any \<open>k\<close> of the copies, each
  once: \<open>use_count\<close> reads \<open>N + 1 - k\<close>.
\<close>

theorem copies_count:
  assumes "ptrs s h = Some \<lparr>obj_pointer = Some a\<rparr>" and "objs s a = Some c"
    and "counter c = 1"
    and "distinct ids" and "\<forall>i\<in>set ids. ptrs s i = None"
    and "length ids + 1 < 2 ^ 32"
    and "distinct (map snd ds)" and "set (map snd ds) \<subseteq> set ids"
  shows "\<exists>s1 u1 s2 u2. run (take_copies h ids) s = Inr s1
     \<and> use_count s1 a = Inr u1 \<and> unat u1 = length ids + 1
     \<and> run (map drop_op ds) s1 = Inr s2
     \<and> use_count s2 a = Inr u2 \<and> unat u2 = length ids + 1 - length ds"
proof -
  let ?c1 = "c\<lparr>counter := counter c + of_nat (length ids)\<rparr>"
  from run_take_copies [OF assms(4,5,1,2)] obtain s1 where
    s1: "run (take_copies h ids) s = Inr s1" "objs s1 a = Some ?c1"
    "\<forall>i\<in>set ids. ptrs s1 i = Some \<lparr>obj_pointer = Some a\<rparr>"
    by blast
  have "counter ?c1 = of_nat (length ids + 1)" using assms(3) by simp
  moreover have "unat (of_nat (length ids + 1) :: stored_type) = length ids + 1"
    using assms(6) by (subst unat_of_nat) simp
  ultimately have u1: "unat (counter ?c1) = length ids + 1" by simp
  have "length ds = length (map snd ds)" by simp
  also have "\<dots> = card (set (map snd ds))" using distinct_card [OF assms(7)] by simp
  also have "\<dots> \<le> card (set ids)" using assms(8) by (simp add: card_mono)
  also have "\<dots> = length ids" using assms(4) by (simp add: distinct_card)
  finally have len: "length ds < unat (counter ?c1)" using u1 by simp
  have hs: "\<forall>i\<in>set (map snd ds). ptrs s1 i = Some \<lparr>obj_pointer = Some a\<rparr>"
    using s1(3) assms(8) by blast
  from run_drops [OF assms(7) hs s1(2) len] obtain s2 c2 where
    s2: "run (map drop_op ds) s1 = Inr s2" "objs s2 a = Some c2"
    "unat (counter c2) = unat (counter ?c1) - length ds"
    by blast
  have "use_count s1 a = Inr (counter ?c1)" using s1(2) by (simp add: use_count_def)
  moreover have "use_count s2 a = Inr (counter c2)" using s2(2) by (simp add: use_count_def)
  ultimately show ?thesis using s1(1) s2(1,3) u1 by auto
qed

theorem copies_count_witness:
  "ptrs owned_store 1 = Some \<lparr>obj_pointer = Some 7\<rparr>
   \<and> objs owned_store 7 = Some \<lparr>counter = 1\<rparr>
   \<and> (\<exists>s1 s2. run (take_copies 1 [2, 3, 4]) owned_store = Inr s1
         \<and> use_count s1 7 = Inr 4
         \<and> run (map drop_op [(True, 2), (False, 4)]) s1 = Inr s2
         \<and> use_count s2 7 = Inr 2)"
proof -
  have h: "ptrs owned_store 1 = Some \<lparr>obj_pointer = Some 7\<rparr>"
    and o: "objs owned_store 7 = Some \<lparr>counter = 1\<rparr>"
    and f: "\<forall>i\<in>set [2, 3, 4]. ptrs owned_store i = None"
    by (simp_all add: owned_store_def)
  have "\<exists>s1 u1 s2 u2. run (take_copies 1 [2, 3, 4]) owned_store = Inr s1
     \<and> use_count s1 7 = Inr u1 \<and> unat u1 = length [2, 3, 4 :: nat] + 1
     \<and> run (map drop_op [(True, 2), (False, 4)]) s1 = Inr s2
     \<and> use_count s2 7 = Inr u2
     \<and> unat u2 = length [2, 3, 4 :: nat] + 1 - length [(True, 2 :: nat), (False, 4)]"
    by (rule copies_count [OF h o _ _ f]) simp_all
  then obtain s1 u1 s2 u2 where r: "run (take_copies 1 [2, 3, 4]) owned_store = Inr s1"
    "use_count s1 7 = Inr u1" "unat u1 = 4"
    "run (map drop_op [(True, 2), (False, 4)]) s1 = Inr s2"
    "use_count s2 7 = Inr u2" "unat u2 = 2"
    by auto
  have "u1 = 4" using r(3) by (simp add: word_unat_eq_iff)
  moreover have "u2 = 2" using r(6) by (simp add: word_unat_eq_iff)
  ultimately show ?thesis using h o r by blast
qed

text \<open>
  C8 as stated fails for \<open>N = 2 ^ 32 - 1\<close>: after that many copies of the handle 0 of an
  object with count 1, the counter has wrapped around and \<open>use_count\<close> reads 0, not
  \<open>N + 1\<close>.
\<close>

theorem copies_count_overflow:
  "count_after (take_copies 0 [1..<4294967296])
      \<lparr>objs = [7 \<mapsto> \<lparr>counter = 1\<rparr>], ptrs = [0 \<mapsto> \<lparr>obj_pointer = Some 7\<rparr>], trace = []\<rparr> 7
     = Inr 0
   \<and> length [1..<4294967296] = 4294967295
   \<and> map_sum id unat (count_after (take_copies 0 [1..<4294967296])
      \<lparr>objs = [7 \<mapsto> \<lparr>counter = 1\<rparr>], ptrs = [0 \<mapsto> \<lparr>obj_pointer = Some 7\<rparr>], trace = []\<rparr> 7)
     \<noteq> Inr (4294967295 + 1)"
proof -
  let ?s = "\<lparr>objs = [7 \<mapsto> \<lparr>counter = 1\<rparr>], ptrs = [0 \<mapsto> \<lparr>obj_pointer = Some 7\<rparr>], trace = []\<rparr>"
  let ?ids = "[1..<4294967296] :: nat list"
  have l: "length ?ids = 4294967295" unfolding length_upt by simp
  have d: "distinct ?ids" by (rule distinct_upt)
  have f: "\<forall>i\<in>set ?ids. ptrs ?s i = None" unfolding set_upt by simp
  have h: "ptrs ?s 0 = Some \<lparr>obj_pointer = Some 7\<rparr>" by simp
  have o: "objs ?s 7 = Some \<lparr>counter = 1\<rparr>" by simp
  from run_take_copies [OF d f h o] obtain s1 where
    s1: "run (take_copies 0 ?ids) ?s = Inr s1"
    "objs s1 7 = Some (\<lparr>counter = 1\<rparr>\<lparr>counter := counter \<lparr>counter = 1\<rparr> + of_nat (length ?ids)\<rparr>)"
    by blast
  have "objs s1 7 = Some \<lparr>counter = 0\<rparr>" using s1(2) unfolding l by simp
  then have u: "use_count s1 7 = Inr 0" by (simp add: use_count_def)
  have c: "count_after (take_copies 0 ?ids) ?s 7 = Inr 0"
    unfolding count_after_def s1(1) and_then_def using u by (simp only: sum.case)
  have n: "map_sum id unat (count_after (take_copies 0 ?ids) ?s 7) \<noteq> Inr (4294967295 + 1)"
    unfolding c by simp
  show ?thesis using c l n by (intro conjI)
qed

section \<open>Runs that meet the caller's obligations\<close>

lemma holders_other: "h \<notin> set hs \<Longrightarrow> holders hs (P(h := z)) a = holders hs P a"
  unfolding holders_def by (rule arg_cong [where f = length], rule filter_cong) auto

lemma holders_update:
  "distinct hs \<Longrightarrow> h \<in> set hs \<Longrightarrow> P h = Some v \<Longrightarrow>
   holders hs (P(h \<mapsto> w)) a + extra (obj_pointer v) a = holders hs P a + extra (obj_pointer w) a"
proof (induction hs)
  case Nil
  then show ?case by simp
next
  case (Cons x hs)
  show ?case
  proof (cases "x = h")
    case True
    then have "h \<notin> set hs" using Cons.prems(1) by simp
    then have "holders hs (P(h \<mapsto> w)) a = holders hs P a" by (rule holders_other)
    then show ?thesis using True Cons.prems(3) by (simp add: holders_def extra_def)
  next
    case False
    then have "h \<in> set hs" "distinct hs" using Cons.prems by auto
    from Cons.IH [OF this(2,1) Cons.prems(3)] False show ?thesis
      by (simp add: holders_def)
  qed
qed

lemma holders_new:
  "h \<notin> set hs \<Longrightarrow> holders (h # hs) (P(h \<mapsto> w)) a = holders hs P a + extra (obj_pointer w) a"
  using holders_other [of h hs P "Some w" a] by (simp add: holders_def extra_def)

lemma holders_remove:
  "distinct hs \<Longrightarrow> h \<in> set hs \<Longrightarrow> P h = Some v \<Longrightarrow>
   holders (removeAll h hs) (P(h := None)) a + extra (obj_pointer v) a = holders hs P a"
proof (induction hs)
  case Nil
  then show ?case by simp
next
  case (Cons x hs)
  show ?case
  proof (cases "x = h")
    case True
    then have n: "h \<notin> set hs" using Cons.prems(1) by simp
    then have "holders hs (P(h := None)) a = holders hs P a" by (rule holders_other)
    then show ?thesis using True Cons.prems(3) n by (simp add: holders_def extra_def)
  next
    case False
    then have "h \<in> set hs" "distinct hs" using Cons.prems by auto
    from Cons.IH [OF this(2,1) Cons.prems(3)] False show ?thesis
      by (simp add: holders_def)
  qed
qed

lemma holders_pos:
  "h \<in> set hs \<Longrightarrow> P h = Some v \<Longrightarrow> obj_pointer v = Some a \<Longrightarrow> 0 < holders hs P a"
  by (auto simp: holders_def filter_empty_conv)

lemma covers_mono: "covers M a n \<Longrightarrow> m \<le> n \<Longrightarrow> covers M a m"
  by (auto simp: covers_def split: option.splits)

lemma accounted_empty: "accounted [] Map.empty M None"
  by (simp add: accounted_def holders_def extra_def covers_def split: option.splits)

lemma accounted_covers: "accounted hs P M t \<Longrightarrow> covers M a (holders hs P a + extra t a)"
  by (simp add: accounted_def)

lemma accounted_live: "accounted hs P M (Some a) \<Longrightarrow> \<exists>c. M a = Some c \<and> counter c \<noteq> 0"
  using accounted_covers [of hs P M "Some a" a]
  by (cases "M a") (auto simp: covers_def extra_def unat_gt_0 [symmetric] simp del: unat_gt_0)

lemma accounted_held_live:
  assumes "accounted hs P M None" and "P h = Some v" and "obj_pointer v = Some a"
  shows "\<exists>c. M a = Some c"
proof -
  have "h \<in> set hs" using assms(1,2) by (auto simp: accounted_def)
  then have "0 < holders hs P a" using assms(2,3) by (rule holders_pos)
  then show ?thesis using accounted_covers [OF assms(1), of a]
    by (cases "M a") (auto simp: covers_def)
qed

lemma accounted_forget: "accounted hs P M t \<Longrightarrow> accounted hs P M None"
  unfolding accounted_def by (auto simp: extra_def intro: covers_mono)

text \<open>Effects on the counters.\<close>

lemma accounted_inc:
  assumes "accounted hs P M None" and "M a = Some c" and "counter c + 1 \<noteq> 0"
  shows "accounted hs P (M(a \<mapsto> c\<lparr>counter := counter c + 1\<rparr>)) (Some a)"
proof -
  have u: "unat (counter c + 1) = Suc (unat (counter c))" using assms(3) unatSuc [of "counter c"] by (simp add: add.commute)
  have "covers (M(a \<mapsto> c\<lparr>counter := counter c + 1\<rparr>)) b (holders hs P b + extra (Some a) b)" for b
    using accounted_covers [OF assms(1), of b] assms(2) u
    by (auto simp: covers_def extra_def split: option.splits if_splits)
  then show ?thesis using assms(1) by (simp add: accounted_def)
qed

lemma accounted_adopt:
  assumes "accounted hs P M None" and "M a = Some c" and "holders hs P a < unat (counter c)"
  shows "accounted hs P M (Some a)"
proof -
  have "covers M b (holders hs P b + extra (Some a) b)" for b
    using accounted_covers [OF assms(1), of b] assms(2,3)
    by (auto simp: covers_def extra_def split: option.splits if_splits)
  then show ?thesis using assms(1) by (simp add: accounted_def)
qed

lemma accounted_release_last:
  assumes "accounted hs P M (Some a)" and "M a = Some c" and "counter c = 1"
  shows "accounted hs P (M(a := None)) None"
proof -
  have "covers (M(a := None)) b (holders hs P b + extra None b)" for b
    using accounted_covers [OF assms(1), of b] assms(2,3)
    by (auto simp: covers_def extra_def split: option.splits if_splits)
  then show ?thesis using assms(1) by (simp add: accounted_def)
qed

lemma accounted_release_more:
  assumes "accounted hs P M (Some a)" and "M a = Some c" and "counter c \<noteq> 1"
  shows "accounted hs P (M(a \<mapsto> c\<lparr>counter := counter c - 1\<rparr>)) None"
proof -
  have "counter c \<noteq> 0" using accounted_live [OF assms(1)] assms(2) by auto
  then have u: "unat (counter c - 1) = unat (counter c) - 1" by (rule unat_minus_one)
  have "covers (M(a \<mapsto> c\<lparr>counter := counter c - 1\<rparr>)) b (holders hs P b + extra None b)" for b
    using accounted_covers [OF assms(1), of b] assms(2) u
    by (auto simp: covers_def extra_def split: option.splits if_splits)
  then show ?thesis using assms(1) by (simp add: accounted_def)
qed

text \<open>Effects on the handles.\<close>

lemma accounted_swap_in:
  assumes "accounted hs P M t" and "P h = Some v"
  shows "accounted hs (P(h \<mapsto> v\<lparr>obj_pointer := t\<rparr>)) M (obj_pointer v)"
proof -
  have d: "distinct hs" and s: "set hs = dom P" using assms(1) by (auto simp: accounted_def)
  have h: "h \<in> set hs" using s assms(2) by auto
  have "holders hs (P(h \<mapsto> v\<lparr>obj_pointer := t\<rparr>)) b + extra (obj_pointer v) b
      = holders hs P b + extra t b" for b
    using holders_update [where hs = hs and h = h and P = P and v = v
        and w = "v\<lparr>obj_pointer := t\<rparr>" and a = b] d h assms(2) by simp
  then have "covers M b (holders hs (P(h \<mapsto> v\<lparr>obj_pointer := t\<rparr>)) b + extra (obj_pointer v) b)" for b
    using accounted_covers [OF assms(1), of b] by simp
  moreover have "dom (P(h \<mapsto> v\<lparr>obj_pointer := t\<rparr>)) = dom P" using assms(2) by auto
  ultimately show ?thesis using d s by (simp add: accounted_def)
qed

lemma accounted_emplace:
  assumes "accounted hs P M (obj_pointer w)" and "P h = None"
  shows "accounted (h # hs) (P(h \<mapsto> w)) M None"
proof -
  have d: "distinct hs" and s: "set hs = dom P" using assms(1) by (auto simp: accounted_def)
  have h: "h \<notin> set hs" using s assms(2) by auto
  have "holders (h # hs) (P(h \<mapsto> w)) b + extra None b
      = holders hs P b + extra (obj_pointer w) b" for b
    using holders_new [where hs = hs and h = h and P = P and w = w and a = b] h
    by (simp add: extra_def)
  then have "covers M b (holders (h # hs) (P(h \<mapsto> w)) b + extra None b)" for b
    using accounted_covers [OF assms(1), of b] by simp
  then show ?thesis using d s h by (simp add: accounted_def)
qed

lemma accounted_take:
  assumes "accounted hs P M None" and "P h = Some v"
  shows "accounted (removeAll h hs) (P(h := None)) M (obj_pointer v)"
proof -
  have d: "distinct hs" and s: "set hs = dom P" using assms(1) by (auto simp: accounted_def)
  have h: "h \<in> set hs" using s assms(2) by auto
  have "holders (removeAll h hs) (P(h := None)) b + extra (obj_pointer v) b
      = holders hs P b + extra None b" for b
    using holders_remove [where hs = hs and h = h and P = P and v = v and a = b] d h assms(2)
    by (simp add: extra_def)
  then have "covers M b (holders (removeAll h hs) (P(h := None)) b + extra (obj_pointer v) b)" for b
    using accounted_covers [OF assms(1), of b] by simp
  moreover have "set (removeAll h hs) = dom (P(h := None))" using s by auto
  ultimately show ?thesis using d by (simp add: accounted_def distinct_removeAll)
qed

text \<open>The operations keep the account.\<close>

lemma add_ref_sound:
  assumes "accounted hs P (objs s) None" and "objs s a = Some c" and "counter c + 1 \<noteq> 0"
  shows "\<exists>s'. intrusive_ptr_add_ref a s = Inr s' \<and> ptrs s' = ptrs s
           \<and> accounted hs P (objs s') (Some a)"
  using assms(2) accounted_inc [OF assms]
  by (simp add: intrusive_ptr_add_ref_def inc_def)

lemma release_sound:
  assumes "accounted hs P (objs s) (Some a)"
  shows "\<exists>s'. intrusive_ptr_release a s = Inr s' \<and> ptrs s' = ptrs s
           \<and> accounted hs P (objs s') None"
proof -
  from accounted_live [OF assms] obtain c where c: "objs s a = Some c" by blast
  show ?thesis
  proof (cases "counter c = 1")
    case True
    with c accounted_release_last [OF assms c True] show ?thesis
      by (simp add: intrusive_ptr_release_def dec_def and_then_def delete_obj_def)
  next
    case False
    with c accounted_release_more [OF assms c False] show ?thesis
      by (simp add: intrusive_ptr_release_def dec_def and_then_def)
  qed
qed

lemma dtor_sound:
  assumes "accounted hs P (objs s) (obj_pointer v)"
  shows "\<exists>s'. intrusive_ptr_dtor v s = Inr s' \<and> ptrs s' = ptrs s
           \<and> accounted hs P (objs s') None"
proof (cases "obj_pointer v")
  case None
  with assms show ?thesis by (simp add: intrusive_ptr_dtor_def)
next
  case (Some a)
  with assms release_sound [of hs P s a] show ?thesis by (simp add: intrusive_ptr_dtor_def)
qed

lemma raw_sound:
  assumes "accounted hs (ptrs s) (objs s) None" and "raw_ok hs s p add_ref"
  shows "\<exists>s'. intrusive_ptr_raw p add_ref s = Inr (\<lparr>obj_pointer = p\<rparr>, s') \<and> ptrs s' = ptrs s
           \<and> accounted hs (ptrs s) (objs s') p"
proof (cases p)
  case None
  with assms(1) show ?thesis by (simp add: intrusive_ptr_raw_def)
next
  case (Some a)
  with assms(2) obtain c where c: "objs s a = Some c"
    and k: "if add_ref then counter c + 1 \<noteq> 0 else holders hs (ptrs s) a < unat (counter c)"
    by (auto simp: raw_ok_def split: option.splits)
  show ?thesis
  proof (cases add_ref)
    case True
    with k have "counter c + 1 \<noteq> 0" by simp
    from add_ref_sound [OF assms(1) c this] Some True show ?thesis
      by (auto simp: intrusive_ptr_raw_def and_then_def)
  next
    case False
    with k have "holders hs (ptrs s) a < unat (counter c)" by simp
    from accounted_adopt [OF assms(1) c this] Some False show ?thesis
      by (simp add: intrusive_ptr_raw_def)
  qed
qed

lemma copy_sound:
  assumes "accounted hs (ptrs s) (objs s) None" and "copy_ok s r"
  shows "\<exists>v s'. ptrs s r = Some v \<and> intrusive_ptr_copy r s = Inr (\<lparr>obj_pointer = obj_pointer v\<rparr>, s')
           \<and> ptrs s' = ptrs s \<and> accounted hs (ptrs s) (objs s') (obj_pointer v)"
proof -
  from assms(2) obtain v where v: "ptrs s r = Some v" and n: "no_wrap s (obj_pointer v)"
    by (auto simp: copy_ok_def split: option.splits)
  show ?thesis
  proof (cases "obj_pointer v")
    case None
    with v assms(1) show ?thesis
      by (simp add: intrusive_ptr_copy_def handle_at_def and_then_def)
  next
    case (Some a)
    from accounted_held_live [OF assms(1) v Some] obtain c where c: "objs s a = Some c" by blast
    with n Some have "counter c + 1 \<noteq> 0" by (simp add: no_wrap_def)
    from add_ref_sound [OF assms(1) c this] v Some show ?thesis
      by (auto simp: intrusive_ptr_copy_def handle_at_def and_then_def)
  qed
qed

lemma move_sound:
  assumes "accounted hs (ptrs s) (objs s) None" and "ptrs s r = Some v"
  shows "\<exists>s'. intrusive_ptr_move r s = Inr (\<lparr>obj_pointer = obj_pointer v\<rparr>, s')
           \<and> accounted hs (ptrs s') (objs s') (obj_pointer v)"
  using assms(2) accounted_swap_in [OF assms]
  by (simp add: intrusive_ptr_move_def handle_at_def and_then_def)

lemma swap_into_sound:
  assumes "accounted hs (ptrs s) (objs s) (obj_pointer tmp)" and "ptrs s h \<noteq> None"
  shows "\<exists>s'. swap_into h (tmp, s) = Inr s'
           \<and> accounted hs (ptrs s') (objs s') None"
proof -
  from assms(2) obtain v where v: "ptrs s h = Some v" by auto
  let ?s1 = "s\<lparr>ptrs := (ptrs s)(h \<mapsto> v\<lparr>obj_pointer := obj_pointer tmp\<rparr>)\<rparr>"
  let ?tmp = "tmp\<lparr>obj_pointer := obj_pointer v\<rparr>"
  have "accounted hs (ptrs ?s1) (objs ?s1) (obj_pointer ?tmp)"
    using accounted_swap_in [OF assms(1) v] by simp
  from dtor_sound [OF this] obtain s' where
    "intrusive_ptr_dtor ?tmp ?s1 = Inr s'" "ptrs s' = ptrs ?s1"
    "accounted hs (ptrs ?s1) (objs s') None"
    by blast
  then show ?thesis using v
    by (simp add: swap_into_def swap_temp_def handle_at_def and_then_def)
qed

lemma emplace_sound:
  assumes "accounted hs (ptrs s) (objs s) (obj_pointer v)" and "ptrs s h = None"
  shows "\<exists>s'. emplace h (v, s) = Inr s'
           \<and> accounted (h # hs) (ptrs s') (objs s') None"
  using assms(2) accounted_emplace [OF assms] by (simp add: emplace_def)

lemma destroy_sound:
  assumes "accounted hs (ptrs s) (objs s) None" and "ptrs s h \<noteq> None"
  shows "\<exists>s'. destroy h s = Inr s' \<and> accounted (removeAll h hs) (ptrs s') (objs s') None"
proof -
  from assms(2) obtain v where v: "ptrs s h = Some v" by auto
  from dtor_sound [OF accounted_take [OF assms(1) v]] obtain s' where
    "intrusive_ptr_dtor v s = Inr s'" "ptrs s' = ptrs s"
    "accounted (removeAll h hs) ((ptrs s)(h := None)) (objs s') None"
    by blast
  then show ?thesis using v by (simp add: destroy_def handle_at_def and_then_def)
qed

lemma detach_sound:
  assumes "accounted hs (ptrs s) (objs s) None" and "ptrs s h \<noteq> None"
  shows "\<exists>p s'. detach h s = Inr (p, s') \<and> accounted hs (ptrs s') (objs s') None"
proof -
  from assms(2) obtain v where v: "ptrs s h = Some v" by auto
  from accounted_forget [OF accounted_swap_in [OF assms(1) v]] v show ?thesis
    by (simp add: detach_def handle_at_def and_then_def)
qed

lemma swap_sound:
  assumes "accounted hs (ptrs s) (objs s) None" and "ptrs s a \<noteq> None" and "ptrs s b \<noteq> None"
  shows "\<exists>s'. swap a b s = Inr s' \<and> accounted hs (ptrs s') (objs s') None"
proof -
  from assms(2,3) obtain tv bv where tv: "ptrs s a = Some tv" and bv: "ptrs s b = Some bv"
    by auto
  show ?thesis
  proof (cases "a = b")
    case True
    with tv bv have "(ptrs s)(b \<mapsto> bv\<lparr>obj_pointer := obj_pointer tv\<rparr>,
        a \<mapsto> tv\<lparr>obj_pointer := obj_pointer bv\<rparr>) = ptrs s"
      by (auto simp: fun_eq_iff)
    with assms(1) tv bv show ?thesis
      by (simp add: swap_def handle_at_def and_then_def)
  next
    case False
    let ?P1 = "(ptrs s)(a \<mapsto> tv\<lparr>obj_pointer := None\<rparr>)"
    have 1: "accounted hs ?P1 (objs s) (obj_pointer tv)"
      using accounted_swap_in [OF assms(1) tv] .
    have b1: "?P1 b = Some bv" using bv False by simp
    let ?P2 = "?P1(b \<mapsto> bv\<lparr>obj_pointer := obj_pointer tv\<rparr>)"
    have 2: "accounted hs ?P2 (objs s) (obj_pointer bv)"
      using accounted_swap_in [OF 1 b1] .
    have a2: "?P2 a = Some (tv\<lparr>obj_pointer := None\<rparr>)" using False by simp
    have 3: "accounted hs (?P2(a \<mapsto> tv\<lparr>obj_pointer := None\<rparr>\<lparr>obj_pointer := obj_pointer bv\<rparr>))
        (objs s) (obj_pointer (tv\<lparr>obj_pointer := None\<rparr>))"
      using accounted_swap_in [OF 2 a2] .
    have "?P2(a \<mapsto> tv\<lparr>obj_pointer := None\<rparr>\<lparr>obj_pointer := obj_pointer bv\<rparr>)
        = (ptrs s)(b \<mapsto> bv\<lparr>obj_pointer := obj_pointer tv\<rparr>,
                   a \<mapsto> tv\<lparr>obj_pointer := obj_pointer bv\<rparr>)"
      using False by (auto simp: fun_eq_iff)
    with 3 have "accounted hs ((ptrs s)(b \<mapsto> bv\<lparr>obj_pointer := obj_pointer tv\<rparr>,
                   a \<mapsto> tv\<lparr>obj_pointer := obj_pointer bv\<rparr>)) (objs s) None"
      by simp
    with tv bv show ?thesis by (simp add: swap_def handle_at_def and_then_def)
  qed
qed

lemma raw_then:
  assumes "accounted hs (ptrs s) (objs s) None" and "raw_ok hs s p add_ref"
    and "\<And>tmp s1. accounted hs (ptrs s1) (objs s1) (obj_pointer tmp) \<Longrightarrow> ptrs s1 = ptrs s
           \<Longrightarrow> \<exists>s'. f (tmp, s1) = Inr s' \<and> Q s'"
  shows "\<exists>s'. and_then (intrusive_ptr_raw p add_ref s) f = Inr s' \<and> Q s'"
proof -
  from raw_sound [OF assms(1,2)] obtain s1 where
    s1: "intrusive_ptr_raw p add_ref s = Inr (\<lparr>obj_pointer = p\<rparr>, s1)" "ptrs s1 = ptrs s"
    "accounted hs (ptrs s) (objs s1) p" by blast
  then have "accounted hs (ptrs s1) (objs s1) (obj_pointer \<lparr>obj_pointer = p\<rparr>)" by simp
  from assms(3) [OF this s1(2)] s1(1) show ?thesis by (simp add: and_then_def)
qed

lemma copy_then:
  assumes "accounted hs (ptrs s) (objs s) None" and "copy_ok s r"
    and "\<And>tmp s1. accounted hs (ptrs s1) (objs s1) (obj_pointer tmp) \<Longrightarrow> ptrs s1 = ptrs s
           \<Longrightarrow> \<exists>s'. f (tmp, s1) = Inr s' \<and> Q s'"
  shows "\<exists>s'. and_then (intrusive_ptr_copy r s) f = Inr s' \<and> Q s'"
proof -
  from copy_sound [OF assms(1,2)] obtain v s1 where
    s1: "intrusive_ptr_copy r s = Inr (\<lparr>obj_pointer = obj_pointer v\<rparr>, s1)" "ptrs s1 = ptrs s"
    "accounted hs (ptrs s) (objs s1) (obj_pointer v)" and "ptrs s r = Some v" by blast
  then have "accounted hs (ptrs s1) (objs s1) (obj_pointer \<lparr>obj_pointer = obj_pointer v\<rparr>)"
    by simp
  from assms(3) [OF this s1(2)] s1(1) show ?thesis by (simp add: and_then_def)
qed

lemma move_then:
  assumes "accounted hs (ptrs s) (objs s) None" and "ptrs s r \<noteq> None"
    and "\<And>tmp s1. accounted hs (ptrs s1) (objs s1) (obj_pointer tmp)
           \<Longrightarrow> dom (ptrs s1) = dom (ptrs s)
           \<Longrightarrow> \<exists>s'. f (tmp, s1) = Inr s' \<and> Q s'"
  shows "\<exists>s'. and_then (intrusive_ptr_move r s) f = Inr s' \<and> Q s'"
proof -
  from assms(2) obtain v where v: "ptrs s r = Some v" by auto
  from move_sound [OF assms(1) v] obtain s1 where
    s1: "intrusive_ptr_move r s = Inr (\<lparr>obj_pointer = obj_pointer v\<rparr>, s1)"
    "accounted hs (ptrs s1) (objs s1) (obj_pointer v)" by blast
  have "dom (ptrs s1) = dom (ptrs s)"
    using s1(2) assms(1) by (simp add: accounted_def)
  moreover have "accounted hs (ptrs s1) (objs s1) (obj_pointer \<lparr>obj_pointer = obj_pointer v\<rparr>)"
    using s1(2) by simp
  ultimately show ?thesis using assms(3) s1(1) by (simp add: and_then_def)
qed

lemma step_sound:
  assumes "accounted hs (ptrs s) (objs s) None" and "op_ok hs s x"
  shows "\<exists>s'. step x s = Inr s' \<and> accounted (handles_after hs x) (ptrs s') (objs s') None"
proof (cases x)
  case (DefaultConstruct h)
  with assms emplace_sound [of hs s intrusive_ptr_default h] show ?thesis
    by (simp add: intrusive_ptr_default_def)
next
  case (Construct h p b)
  with assms show ?thesis
    by (auto intro!: raw_then emplace_sound)
next
  case (CopyConstruct h r)
  with assms show ?thesis
    by (auto intro!: copy_then emplace_sound)
next
  case (MoveConstruct h r)
  with assms have "ptrs s h = None" "ptrs s r \<noteq> None" by auto
  then show ?thesis using assms(1) MoveConstruct
    by (auto intro!: move_then emplace_sound simp: domIff dest!: arg_cong [where f = "\<lambda>A. h \<in> A"])
next
  case (Destroy h)
  with assms destroy_sound [of hs s h] show ?thesis by simp
next
  case (CopyAssign h r)
  show ?thesis
  proof (cases "h = r")
    case True
    with CopyAssign assms show ?thesis by (simp add: copy_assign_def)
  next
    case False
    with CopyAssign assms show ?thesis
      by (auto simp: copy_assign_def intro!: copy_then swap_into_sound)
  qed
next
  case (ConvCopyAssign h r)
  with assms show ?thesis
    by (auto simp: conv_copy_assign_def intro!: copy_then swap_into_sound)
next
  case (RawAssign h p)
  with assms show ?thesis
    by (auto simp: raw_assign_def intro!: raw_then swap_into_sound)
next
  case (MoveAssign h r)
  show ?thesis
  proof (cases "h = r")
    case True
    with MoveAssign assms show ?thesis by (simp add: move_assign_def)
  next
    case False
    with MoveAssign assms show ?thesis
      by (auto simp: move_assign_def domIff intro!: move_then swap_into_sound
          dest!: arg_cong [where f = "\<lambda>A. h \<in> A"])
  qed
next
  case (ConvMoveAssign h r)
  with assms show ?thesis
    by (auto simp: conv_move_assign_def domIff intro!: move_then swap_into_sound
        dest!: arg_cong [where f = "\<lambda>A. h \<in> A"])
next
  case (Reset h)
  with assms swap_into_sound [of hs s intrusive_ptr_default h] show ?thesis
    by (simp add: reset_def intrusive_ptr_default_def)
next
  case (ResetRaw h p)
  with assms show ?thesis
    by (auto simp: reset_raw_def intro!: raw_then swap_into_sound)
next
  case (ResetRawFlag h p b)
  with assms show ?thesis
    by (auto simp: reset_raw_flag_def intro!: raw_then swap_into_sound)
next
  case (Detach h)
  with assms detach_sound [of hs s h] show ?thesis by (auto simp: and_then_def)
next
  case (Swap a b)
  with assms swap_sound [of hs s a b] show ?thesis by simp
qed

lemma run_sound:
  assumes "accounted hs (ptrs s) (objs s) None" and "disciplined hs s xs"
  shows "\<exists>s' hs'. run xs s = Inr s' \<and> accounted hs' (ptrs s') (objs s') None"
  using assms
proof (induction xs arbitrary: hs s)
  case Nil
  then show ?case by auto
next
  case (Cons x xs)
  from Cons.prems(2) have ok: "op_ok hs s x" by simp
  from step_sound [OF Cons.prems(1) ok] obtain s1 where
    s1: "step x s = Inr s1" "accounted (handles_after hs x) (ptrs s1) (objs s1) None" by blast
  from Cons.prems(2) s1(1) have "disciplined (handles_after hs x) s1 xs" by simp
  from Cons.IH [OF s1(2) this] s1(1) show ?case by (simp add: and_then_def)
qed

lemma run_append: "run (xs @ ys) s = and_then (run xs s) (run ys)"
  by (induction xs arbitrary: s) (auto simp: and_then_def split: sum.splits)

text \<open>
  C2, as amended. Start with no handles and an empty trace, with any objects and any
  counts, and run any list of handle operations each of which meets the caller's
  obligations \<open>op_ok\<close> in the store it is run in. Then every operation is defined: the
  run returns a store. In its trace \<open>Delete a\<close> occurs at most once for every object
  \<open>a\<close>; the trace is \<open>paired\<close>, that is, a \<open>Delete\<close> stands exactly after each decrement
  of the same object that read 1 and nowhere else; an object is gone at the end if and
  only if it was not live at the start or its \<open>Delete\<close> is in the trace; and no handle
  is left holding an object that is gone.
\<close>

theorem obliging_run_destroys_once:
  assumes "ptrs s = Map.empty" and "trace s = []" and "disciplined [] s xs"
  shows "\<exists>s'. run xs s = Inr s'
     \<and> count_list (trace s') (Delete a) \<le> 1 \<and> paired (trace s')
     \<and> (objs s' a = None) = (objs s a = None \<or> Delete a \<in> set (trace s'))
     \<and> (\<forall>h v p. ptrs s' h = Some v \<and> obj_pointer v = Some p \<longrightarrow> objs s' p \<noteq> None)"
proof -
  have "accounted [] (ptrs s) (objs s) None" using assms(1) by (simp add: accounted_empty)
  from run_sound [OF this assms(3)] obtain s' hs' where
    r: "run xs s = Inr s'" and acc: "accounted hs' (ptrs s') (objs s') None"
    by blast
  from run_evolves [OF r] assms(2) have
    1: "paired (trace s')" and 2: "distinct (filter is_delete (trace s'))"
    and 3: "(objs s' a = None) = (objs s a = None \<or> Delete a \<in> set (trace s'))"
    unfolding evolves_def by auto
  have 4: "count_list (trace s') (Delete a) \<le> 1"
    using 2 distinct_filter_count [of is_delete "trace s'" "Delete a"] by simp
  have 5: "\<forall>h v p. ptrs s' h = Some v \<and> obj_pointer v = Some p \<longrightarrow> objs s' p \<noteq> None"
    using accounted_held_live [OF acc] by fastforce
  show ?thesis using r 4 1 3 5 by (intro exI [of _ s'] conjI)
qed

lemmas run_defs = fresh_store_def counter_defs handle_defs reset_def

theorem obliging_run_destroys_once_witness:
  "ptrs fresh_store = Map.empty \<and> trace fresh_store = []
   \<and> disciplined [] fresh_store
        [Construct 1 (Some 7) True, CopyConstruct 2 1, Detach 2, Construct 3 (Some 7) False,
         MoveConstruct 4 3, Destroy 4, Reset 1]
   \<and> (\<exists>s'. run [Construct 1 (Some 7) True, CopyConstruct 2 1, Detach 2,
                Construct 3 (Some 7) False, MoveConstruct 4 3, Destroy 4, Reset 1] fresh_store
             = Inr s'
         \<and> trace s' = [Inc 7, Inc 7, Dec 7 2, Dec 7 1, Delete 7]
         \<and> count_list (trace s') (Delete 7) \<le> 1 \<and> paired (trace s') \<and> objs s' 7 = None)"
proof -
  let ?xs = "[Construct 1 (Some 7) True, CopyConstruct 2 1, Detach 2, Construct 3 (Some 7) False,
         MoveConstruct 4 3, Destroy 4, Reset 1]"
  have p: "ptrs fresh_store = Map.empty" and e: "trace fresh_store = []"
    and o: "objs fresh_store 7 \<noteq> None"
    by (simp_all add: fresh_store_def)
  have d: "disciplined [] fresh_store ?xs"
    by (simp add: run_defs raw_ok_def copy_ok_def no_wrap_def holders_def)
  have t: "map_sum id trace (run ?xs fresh_store) = Inr [Inc 7, Inc 7, Dec 7 2, Dec 7 1, Delete 7]"
    by (simp add: run_defs)
  from obliging_run_destroys_once [OF p e d, of 7] obtain s' where
    all: "run ?xs fresh_store = Inr s'
     \<and> count_list (trace s') (Delete 7) \<le> 1 \<and> paired (trace s')
     \<and> (objs s' 7 = None) = (objs fresh_store 7 = None \<or> Delete 7 \<in> set (trace s'))
     \<and> (\<forall>h v p. ptrs s' h = Some v \<and> obj_pointer v = Some p \<longrightarrow> objs s' p \<noteq> None)"
    by (rule exE)
  note s' = all [THEN conjunct1] all [THEN conjunct2, THEN conjunct1]
    all [THEN conjunct2, THEN conjunct2, THEN conjunct1]
    all [THEN conjunct2, THEN conjunct2, THEN conjunct2, THEN conjunct1]
  from t s'(1) have tr: "trace s' = [Inc 7, Inc 7, Dec 7 2, Dec 7 1, Delete 7]" by simp
  with s'(4) o have g: "objs s' 7 = None" by simp
  have "\<exists>s'. run ?xs fresh_store = Inr s'
         \<and> trace s' = [Inc 7, Inc 7, Dec 7 2, Dec 7 1, Delete 7]
         \<and> count_list (trace s') (Delete 7) \<le> 1 \<and> paired (trace s') \<and> objs s' 7 = None"
    using s'(1) tr s'(2) s'(3) g by (intro exI [of _ s'] conjI)
  then show ?thesis using p e d by (intro conjI)
qed

text \<open>
  C2 as stated, for every sequence, fails. Let a second handle adopt with
  \<open>add_ref = false\<close> the object a first handle owns with count 1: destroying the first
  handle deletes the object, and destroying the second then decrements the counter of
  an object that is gone, which has no defined behaviour. The same happens with
  counted operations only: after \<open>2 ^ 32\<close> copies the counter has wrapped around to 1,
  the first destructor deletes the object, and the second acts on an object that is
  gone.
\<close>

theorem release_after_destroy_undefined:
  "run [Construct 1 (Some 7) True, Construct 2 (Some 7) False, Destroy 1, Destroy 2] fresh_store
     = Inl (UseAfterFree 7)
   \<and> map_sum id trace
        (run [Construct 1 (Some 7) True, Construct 2 (Some 7) False, Destroy 1] fresh_store)
     = Inr [Inc 7, Dec 7 1, Delete 7]
   \<and> run (take_copies 0 [1..<4294967297] @ [Destroy 1, Destroy 2])
        \<lparr>objs = [7 \<mapsto> \<lparr>counter = 1\<rparr>], ptrs = [0 \<mapsto> \<lparr>obj_pointer = Some 7\<rparr>], trace = []\<rparr>
     = Inl (UseAfterFree 7)"
proof -
  let ?s = "\<lparr>objs = [7 \<mapsto> \<lparr>counter = 1\<rparr>], ptrs = [0 \<mapsto> \<lparr>obj_pointer = Some 7\<rparr>], trace = []\<rparr>"
  let ?ids = "[1..<4294967297] :: nat list"
  have a: "run [Construct 1 (Some 7) True, Construct 2 (Some 7) False, Destroy 1, Destroy 2]
      fresh_store = Inl (UseAfterFree 7)"
    by (simp add: run_defs)
  have b: "map_sum id trace
        (run [Construct 1 (Some 7) True, Construct 2 (Some 7) False, Destroy 1] fresh_store)
     = Inr [Inc 7, Dec 7 1, Delete 7]"
    by (simp add: run_defs)
  have l: "length ?ids = 4294967296" unfolding length_upt by simp
  have d: "distinct ?ids" by (rule distinct_upt)
  have f: "\<forall>i\<in>set ?ids. ptrs ?s i = None" unfolding set_upt by simp
  have h: "ptrs ?s 0 = Some \<lparr>obj_pointer = Some 7\<rparr>" by simp
  have o: "objs ?s 7 = Some \<lparr>counter = 1\<rparr>" by simp
  have m: "1 \<in> set ?ids" "2 \<in> set ?ids" unfolding set_upt by simp_all
  from run_take_copies [OF d f h o] obtain s1 where
    s1: "run (take_copies 0 ?ids) ?s = Inr s1"
    "objs s1 7 = Some (\<lparr>counter = 1\<rparr>\<lparr>counter := counter \<lparr>counter = 1\<rparr> + of_nat (length ?ids)\<rparr>)"
    "\<forall>i\<in>set ?ids. ptrs s1 i = Some \<lparr>obj_pointer = Some 7\<rparr>"
    by blast
  have c1: "objs s1 7 = Some \<lparr>counter = 1\<rparr>" using s1(2) unfolding l by simp
  have p1: "ptrs s1 1 = Some \<lparr>obj_pointer = Some 7\<rparr>" using s1(3) m(1) by blast
  have p2: "ptrs s1 2 = Some \<lparr>obj_pointer = Some 7\<rparr>" using s1(3) m(2) by blast
  have "run [Destroy 1, Destroy 2] s1 = Inl (UseAfterFree 7)"
    using c1 p1 p2 by (simp add: counter_defs handle_defs)
  then have c: "run (take_copies 0 ?ids @ [Destroy 1, Destroy 2]) ?s = Inl (UseAfterFree 7)"
    unfolding run_append s1(1) and_then_def by (simp only: sum.case)
  show ?thesis using a b c by (intro conjI)
qed

end
